theory Spec2Isabelle
  imports Main
begin

section \<open>The board\<close>

text \<open>
  The program keeps the grid in a \<^verbatim>\<open>char board[8][8]\<close> whose cells hold one of the
  three characters \<^verbatim>\<open>'-'\<close>, \<^verbatim>\<open>'b'\<close> and \<^verbatim>\<open>'w'\<close>. A player is named by the
  character of its discs, so a player is a \<open>cell\<close> too.
\<close>

datatype cell = Empty | Black | White

text \<open>
  Only the indices in \<open>[0,7] \<times> [0,7]\<close> are cells of the array. Loops whose counters run
  over the constant range \<open>0..7\<close> read \<open>board i j\<close> directly; every access at a computed
  index goes through \<open>cellAt\<close> or \<open>setCell\<close>, which fail outside the array.
\<close>

type_synonym board = "int \<Rightarrow> int \<Rightarrow> cell"

datatype error =
    OutOfBounds  \<comment> \<open>an access outside the array (undefined behaviour in C++)\<close>
  | NullPointer  \<comment> \<open>a read through \<^verbatim>\<open>children == NULL\<close>\<close>
  | RangeError   \<comment> \<open>the \<^verbatim>\<open>std::range_error\<close> thrown by \<^verbatim>\<open>isLegalMove\<close>\<close>
  | NoReturn     \<comment> \<open>a loop that never exits\<close>

definition cellAt :: "board \<Rightarrow> int \<Rightarrow> int \<Rightarrow> error + cell" where
  "cellAt board r c =
     (if 0 \<le> r \<and> r \<le> 7 \<and> 0 \<le> c \<and> c \<le> 7 then Inr (board r c) else Inl OutOfBounds)"

definition setCell :: "board \<Rightarrow> int \<Rightarrow> int \<Rightarrow> cell \<Rightarrow> error + board" where
  "setCell board r c v =
     (if 0 \<le> r \<and> r \<le> 7 \<and> 0 \<le> c \<and> c \<le> 7 then Inr (board(r := (board r)(c := v)))
      else Inl OutOfBounds)"

text \<open>The table \<^verbatim>\<open>surroundingPosDeltas\<close> of \<^verbatim>\<open>flip\<close> and \<^verbatim>\<open>isFlippable\<close>.\<close>

definition surroundingPosDeltas :: "(int \<times> int) list" where
  "surroundingPosDeltas =
     [(-1, -1), (-1, 0), (-1, 1), (0, -1), (0, 1), (1, -1), (1, 0), (1, 1)]"

text \<open>The index pairs of \<^verbatim>\<open>for i in 0..7: for j in 0..7\<close>, in the order the loops visit them.\<close>

definition cells :: "(int \<times> int) list" where
  "cells = concat (map (\<lambda>i. map (\<lambda>j. (i, j)) [0, 1, 2, 3, 4, 5, 6, 7]) [0, 1, 2, 3, 4, 5, 6, 7])"

section \<open>isFlippable\<close>

text \<open>
  The \<^verbatim>\<open>while\<close> loop of \<^verbatim>\<open>isFlippable\<close> (lines 139 to 149). Its off-board test is
  \<^verbatim>\<open>curr_row > 7 || curr_row < 0 || curr_col > 7 || curr_row < 0\<close>: the row is tested
  twice against 0 and the column never. The result is the last value of
  \<^verbatim>\<open>char_in_pos\<close>. With a zero delta the loop would read the same opposing cell for
  ever, which is the result \<open>NoReturn\<close>; no delta of the table is zero.
\<close>

function isFlippable_walk ::
  "board \<Rightarrow> cell \<Rightarrow> int \<Rightarrow> int \<Rightarrow> int \<Rightarrow> int \<Rightarrow> cell \<Rightarrow> error + cell" where
  "isFlippable_walk board otherPlayer d0 d1 curr_row curr_col char_in_pos =
     (if char_in_pos = otherPlayer then
        (if curr_row + d0 > 7 \<or> curr_row + d0 < 0 \<or> curr_col + d1 > 7 \<or> curr_row + d0 < 0
         then Inr char_in_pos
         else
           (case cellAt board (curr_row + d0) (curr_col + d1) of
              Inl e \<Rightarrow> Inl e
            | Inr ch \<Rightarrow>
                if d0 = 0 \<and> d1 = 0 then Inl NoReturn
                else isFlippable_walk board otherPlayer d0 d1 (curr_row + d0) (curr_col + d1) ch))
      else Inr char_in_pos)"
  by pat_completeness auto
termination
  by (relation "measure (\<lambda>(board, otherPlayer, d0, d1, curr_row, curr_col, char_in_pos).
        nat (if d0 > 0 then 8 - curr_row else if d0 < 0 then curr_row + 1
             else if d1 > 0 then 8 - curr_col else curr_col + 1))")
     (auto simp: cellAt_def split: if_splits)

declare isFlippable_walk.simps [simp del]

text \<open>The \<^verbatim>\<open>for\<close> loop of \<^verbatim>\<open>isFlippable\<close> over the deltas that are left.\<close>

fun isFlippable_loop ::
  "board \<Rightarrow> int \<Rightarrow> int \<Rightarrow> cell \<Rightarrow> (int \<times> int) list \<Rightarrow> error + bool" where
  "isFlippable_loop board row col player [] = Inr False"
| "isFlippable_loop board row col player (deltas # rest) =
     (if row + fst deltas > 7 \<or> row + fst deltas < 0 \<or> col + snd deltas > 7 \<or> col + snd deltas < 0
      then isFlippable_loop board row col player rest
      else
        (case cellAt board (row + fst deltas) (col + snd deltas) of
           Inl e \<Rightarrow> Inl e
         | Inr char_in_pos \<Rightarrow>
             if char_in_pos = (if player = Black then White else Black) then
               (case isFlippable_walk board (if player = Black then White else Black)
                       (fst deltas) (snd deltas) (row + fst deltas) (col + snd deltas) char_in_pos of
                  Inl e \<Rightarrow> Inl e
                | Inr ch \<Rightarrow>
                    if ch = player then Inr True
                    else isFlippable_loop board row col player rest)
             else isFlippable_loop board row col player rest))"

definition isFlippable :: "board \<Rightarrow> int \<Rightarrow> int \<Rightarrow> cell \<Rightarrow> error + bool" where
  "isFlippable board row col player = isFlippable_loop board row col player surroundingPosDeltas"

section \<open>flip and makeMove\<close>

text \<open>
  The first \<^verbatim>\<open>while\<close> loop of \<^verbatim>\<open>flip\<close> (lines 66 to 76): the same walk, with the
  off-board test \<^verbatim>\<open>curr_row > 7 || curr_row < 0 || curr_col > 7 || curr_col < 0\<close>.
\<close>

function flip_walk ::
  "board \<Rightarrow> cell \<Rightarrow> int \<Rightarrow> int \<Rightarrow> int \<Rightarrow> int \<Rightarrow> cell \<Rightarrow> error + cell" where
  "flip_walk board otherPlayer d0 d1 curr_row curr_col char_in_pos =
     (if char_in_pos = otherPlayer then
        (if curr_row + d0 > 7 \<or> curr_row + d0 < 0 \<or> curr_col + d1 > 7 \<or> curr_col + d1 < 0
         then Inr char_in_pos
         else
           (case cellAt board (curr_row + d0) (curr_col + d1) of
              Inl e \<Rightarrow> Inl e
            | Inr ch \<Rightarrow>
                if d0 = 0 \<and> d1 = 0 then Inl NoReturn
                else flip_walk board otherPlayer d0 d1 (curr_row + d0) (curr_col + d1) ch))
      else Inr char_in_pos)"
  by pat_completeness auto
termination
  by (relation "measure (\<lambda>(board, otherPlayer, d0, d1, curr_row, curr_col, char_in_pos).
        nat (if d0 > 0 then 8 - curr_row else if d0 < 0 then curr_row + 1
             else if d1 > 0 then 8 - curr_col else curr_col + 1))")
     (auto simp: cellAt_def split: if_splits)

declare flip_walk.simps [simp del]

text \<open>
  The second \<^verbatim>\<open>while\<close> loop of \<^verbatim>\<open>flip\<close> (lines 90 to 99), which pushes the
  positions of the opposing discs and has no off-board test of its own.
\<close>

function flip_collect ::
  "board \<Rightarrow> cell \<Rightarrow> int \<Rightarrow> int \<Rightarrow> int \<Rightarrow> int \<Rightarrow> cell \<Rightarrow> (int \<times> int) list
     \<Rightarrow> error + (int \<times> int) list" where
  "flip_collect board otherPlayer d0 d1 curr_row curr_col char_in_pos discs_to_flip =
     (if char_in_pos = otherPlayer then
        (case cellAt board (curr_row + d0) (curr_col + d1) of
           Inl e \<Rightarrow> Inl e
         | Inr ch \<Rightarrow>
             if d0 = 0 \<and> d1 = 0 then Inl NoReturn
             else flip_collect board otherPlayer d0 d1 (curr_row + d0) (curr_col + d1) ch
                    (discs_to_flip @ [(curr_row, curr_col)]))
      else Inr discs_to_flip)"
  by pat_completeness auto
termination
  by (relation "measure (\<lambda>(board, otherPlayer, d0, d1, curr_row, curr_col, char_in_pos, discs).
        nat (if d0 > 0 then 8 - curr_row else if d0 < 0 then curr_row + 1
             else if d1 > 0 then 8 - curr_col else curr_col + 1))")
     (auto simp: cellAt_def split: if_splits)

declare flip_collect.simps [simp del]

text \<open>The \<^verbatim>\<open>for\<close> loop of \<^verbatim>\<open>flip\<close> over the deltas that are left.\<close>

fun flip_loop ::
  "board \<Rightarrow> int \<Rightarrow> int \<Rightarrow> cell \<Rightarrow> (int \<times> int) list \<Rightarrow> (int \<times> int) list
     \<Rightarrow> error + (int \<times> int) list" where
  "flip_loop board row col player [] discs_to_flip = Inr discs_to_flip"
| "flip_loop board row col player (deltas # rest) discs_to_flip =
     (if row + fst deltas > 7 \<or> row + fst deltas < 0 \<or> col + snd deltas > 7 \<or> col + snd deltas < 0
      then flip_loop board row col player rest discs_to_flip
      else
        (case cellAt board (row + fst deltas) (col + snd deltas) of
           Inl e \<Rightarrow> Inl e
         | Inr char_in_pos \<Rightarrow>
             if char_in_pos = (if player = Black then White else Black) then
               (case flip_walk board (if player = Black then White else Black)
                       (fst deltas) (snd deltas) (row + fst deltas) (col + snd deltas) char_in_pos of
                  Inl e \<Rightarrow> Inl e
                | Inr ch \<Rightarrow>
                    if ch = player then
                      (case cellAt board (row + fst deltas) (col + snd deltas) of
                         Inl e \<Rightarrow> Inl e
                       | Inr ch0 \<Rightarrow>
                           (case flip_collect board (if player = Black then White else Black)
                                   (fst deltas) (snd deltas) (row + fst deltas) (col + snd deltas)
                                   ch0 discs_to_flip of
                              Inl e \<Rightarrow> Inl e
                            | Inr discs \<Rightarrow> flip_loop board row col player rest discs))
                    else flip_loop board row col player rest discs_to_flip)
             else flip_loop board row col player rest discs_to_flip))"

text \<open>The last loop of \<^verbatim>\<open>flip\<close>: every collected position is set to the player's disc.\<close>

fun flip_apply :: "board \<Rightarrow> cell \<Rightarrow> (int \<times> int) list \<Rightarrow> error + board" where
  "flip_apply board player [] = Inr board"
| "flip_apply board player (pos # rest) =
     (case setCell board (fst pos) (snd pos) player of
        Inl e \<Rightarrow> Inl e
      | Inr board' \<Rightarrow> flip_apply board' player rest)"

definition flip :: "board \<Rightarrow> int \<Rightarrow> int \<Rightarrow> cell \<Rightarrow> error + board" where
  "flip board row col player =
     (case flip_loop board row col player surroundingPosDeltas [] of
        Inl e \<Rightarrow> Inl e
      | Inr discs_to_flip \<Rightarrow> flip_apply board player discs_to_flip)"

definition makeMove :: "board \<Rightarrow> int \<Rightarrow> int \<Rightarrow> cell \<Rightarrow> error + board" where
  "makeMove board row col player =
     (case setCell board row col player of
        Inl e \<Rightarrow> Inl e
      | Inr board' \<Rightarrow> flip board' row col player)"

section \<open>Legal moves\<close>

fun calculateLegalMoves_loop ::
  "board \<Rightarrow> cell \<Rightarrow> (int \<times> int) list \<Rightarrow> (int \<times> int) list \<Rightarrow> error + (int \<times> int) list" where
  "calculateLegalMoves_loop board player [] move_list = Inr move_list"
| "calculateLegalMoves_loop board player (ij # rest) move_list =
     (if board (fst ij) (snd ij) = Empty then
        (case isFlippable board (fst ij) (snd ij) player of
           Inl e \<Rightarrow> Inl e
         | Inr flippable \<Rightarrow>
             if flippable then calculateLegalMoves_loop board player rest (move_list @ [ij])
             else calculateLegalMoves_loop board player rest move_list)
      else calculateLegalMoves_loop board player rest move_list)"

definition calculateLegalMoves :: "board \<Rightarrow> cell \<Rightarrow> error + (int \<times> int) list" where
  "calculateLegalMoves board player = calculateLegalMoves_loop board player cells []"

text \<open>
  \<^verbatim>\<open>isLegalMove\<close> does not write to the board, so the model returns the truth value
  only; the exception is the error \<open>RangeError\<close>.
\<close>

definition isLegalMove ::
  "board \<Rightarrow> (int \<times> int) list \<Rightarrow> int \<Rightarrow> int \<Rightarrow> cell \<Rightarrow> error + bool" where
  "isLegalMove board move_list row col player =
     (if row > 7 \<or> row < 0 \<or> col > 7 \<or> col < 0 then Inl RangeError
      else if board row col \<noteq> Empty then Inr False
      else if (row, col) \<in> set move_list then Inr True
      else Inr False)"

definition getBlackLegalMoves :: "board \<Rightarrow> error + (int \<times> int) list" where
  "getBlackLegalMoves board = calculateLegalMoves board Black"

definition getWhiteLegalMoves :: "board \<Rightarrow> error + (int \<times> int) list" where
  "getWhiteLegalMoves board = calculateLegalMoves board White"

text \<open>The \<^verbatim>\<open>&&\<close> of \<^verbatim>\<open>isGameOver\<close> does not compute White's moves when Black has one.\<close>

definition isGameOver :: "board \<Rightarrow> error + bool" where
  "isGameOver board =
     (case getBlackLegalMoves board of
        Inl e \<Rightarrow> Inl e
      | Inr bm \<Rightarrow>
          if bm = [] then
            (case getWhiteLegalMoves board of Inl e \<Rightarrow> Inl e | Inr wm \<Rightarrow> Inr (wm = []))
          else Inr False)"

definition getScore :: "board \<Rightarrow> cell \<Rightarrow> int" where
  "getScore board player =
     fold (\<lambda>ij total. if board (fst ij) (snd ij) = player then total + 1 else total) cells 0"

section \<open>The heuristic\<close>

text \<open>The eight corner tests of \<^verbatim>\<open>heuristic\<close> (lines 318 to 341), gathered by player.\<close>

definition corners :: "board \<Rightarrow> cell \<Rightarrow> int" where
  "corners board player =
     (if board 0 0 = player then 10 else 0) + (if board 7 0 = player then 10 else 0)
     + (if board 0 7 = player then 10 else 0) + (if board 7 7 = player then 10 else 0)"

definition heuristic :: "board \<Rightarrow> error + int" where
  "heuristic board =
     (case getBlackLegalMoves board of
        Inl e \<Rightarrow> Inl e
      | Inr bm \<Rightarrow>
          (case getWhiteLegalMoves board of
             Inl e \<Rightarrow> Inl e
           | Inr wm \<Rightarrow>
               Inr ((int (length bm) + getScore board Black + corners board Black)
                    - (int (length wm) + getScore board White + corners board White))))"

section \<open>The game tree\<close>

text \<open>
  \<^verbatim>\<open>struct Node\<close>. \<open>children = None\<close> is the \<^verbatim>\<open>NULL\<close> pointer; otherwise the array of
  the children, which are owned by the node.
\<close>

datatype Node = Node
  (children: "Node list option")
  (child_count: int)
  (move_list: "(int \<times> int) list")
  (state: board)
  (val: int)

text \<open>
  \<^verbatim>\<open>CreateTree\<close>, and its loop over the moves that are left. \<^verbatim>\<open>new Node()\<close>
  value-initialises the node, so \<open>val\<close> starts at 0.
\<close>

function CreateTree :: "board \<Rightarrow> int \<Rightarrow> cell \<Rightarrow> error + Node"
  and CreateTree_loop :: "board \<Rightarrow> int \<Rightarrow> cell \<Rightarrow> (int \<times> int) list \<Rightarrow> error + Node list" where
  "CreateTree board depth player =
     (case (if player = White then getWhiteLegalMoves board else getBlackLegalMoves board) of
        Inl e \<Rightarrow> Inl e
      | Inr ml \<Rightarrow>
          if depth > 0 \<and> int (length ml) > 0 then
            (case CreateTree_loop board depth player ml of
               Inl e \<Rightarrow> Inl e
             | Inr cs \<Rightarrow> Inr (Node (Some cs) (int (length ml)) ml board 0))
          else Inr (Node None (int (length ml)) ml board 0))"
| "CreateTree_loop board depth player [] = Inr []"
| "CreateTree_loop board depth player (m # rest) =
     (case makeMove board (fst m) (snd m) player of
        Inl e \<Rightarrow> Inl e
      | Inr tmp_board \<Rightarrow>
          (case CreateTree tmp_board (depth - 1) (if player = White then Black else White) of
             Inl e \<Rightarrow> Inl e
           | Inr child \<Rightarrow>
               (case CreateTree_loop board depth player rest of
                  Inl e \<Rightarrow> Inl e
                | Inr cs \<Rightarrow> Inr (child # cs))))"
  by pat_completeness auto
termination
  by (relation "inv_image (less_than <*lex*> less_than)
        (\<lambda>x. case x of Inl (board, depth, player) \<Rightarrow> (2 * nat (depth + 1), 0)
                      | Inr (board, depth, player, ms) \<Rightarrow> (2 * nat depth + 1, length ms))")
     auto

declare CreateTree.simps [simp del]

section \<open>Minimax\<close>

text \<open>
  The search with alpha-beta pruning. Each loop runs over the children that are left, with
  the number \<open>n\<close> of iterations that are left of \<^verbatim>\<open>i < child_count\<close>, and returns the
  children with the values the search has written into them. The base case returns before
  any write to \<open>val\<close>.
\<close>

function (sequential) minimax :: "Node \<Rightarrow> int \<Rightarrow> int \<Rightarrow> int \<Rightarrow> bool \<Rightarrow> error + (int \<times> Node)"
  and minimax_children ::
    "Node list option \<Rightarrow> int \<Rightarrow> int \<Rightarrow> int \<Rightarrow> int \<Rightarrow> bool \<Rightarrow> error + (int \<times> Node list option)"
  and minimax_max_loop ::
    "Node list \<Rightarrow> nat \<Rightarrow> int \<Rightarrow> int \<Rightarrow> int \<Rightarrow> int \<Rightarrow> error + (int \<times> Node list)"
  and minimax_min_loop ::
    "Node list \<Rightarrow> nat \<Rightarrow> int \<Rightarrow> int \<Rightarrow> int \<Rightarrow> int \<Rightarrow> error + (int \<times> Node list)" where
  "minimax (Node cs cnt ml st v) depth alpha beta maximizing_player =
     (if depth = 0 then
        (case heuristic st of Inl e \<Rightarrow> Inl e | Inr h \<Rightarrow> Inr (h, Node cs cnt ml st v))
      else
        (case isGameOver st of
           Inl e \<Rightarrow> Inl e
         | Inr over \<Rightarrow>
             if over then
               (case heuristic st of Inl e \<Rightarrow> Inl e | Inr h \<Rightarrow> Inr (h, Node cs cnt ml st v))
             else
               (case minimax_children cs cnt depth alpha beta maximizing_player of
                  Inl e \<Rightarrow> Inl e
                | Inr (eval, cs') \<Rightarrow> Inr (eval, Node cs' cnt ml st eval))))"
| "minimax_children None cnt depth alpha beta maximizing_player =
     (if 0 < cnt then Inl NullPointer
      else Inr (if maximizing_player then -9999999 else 9999999, None))"
| "minimax_children (Some cs) cnt depth alpha beta maximizing_player =
     (if maximizing_player then
        (case minimax_max_loop cs (nat cnt) depth alpha beta (-9999999) of
           Inl e \<Rightarrow> Inl e
         | Inr (max_eval, cs') \<Rightarrow> Inr (max_eval, Some cs'))
      else
        (case minimax_min_loop cs (nat cnt) depth alpha beta 9999999 of
           Inl e \<Rightarrow> Inl e
         | Inr (min_eval, cs') \<Rightarrow> Inr (min_eval, Some cs')))"
| "minimax_max_loop cs 0 depth alpha beta max_eval = Inr (max_eval, cs)"
| "minimax_max_loop [] (Suc n) depth alpha beta max_eval = Inl OutOfBounds"
| "minimax_max_loop (c # cs) (Suc n) depth alpha beta max_eval =
     (case minimax c (depth - 1) alpha beta False of
        Inl e \<Rightarrow> Inl e
      | Inr (eval, c') \<Rightarrow>
          if beta \<le> max alpha eval then Inr (max max_eval eval, c' # cs)
          else
            (case minimax_max_loop cs n depth (max alpha eval) beta (max max_eval eval) of
               Inl e \<Rightarrow> Inl e
             | Inr (max_eval', cs') \<Rightarrow> Inr (max_eval', c' # cs')))"
| "minimax_min_loop cs 0 depth alpha beta min_eval = Inr (min_eval, cs)"
| "minimax_min_loop [] (Suc n) depth alpha beta min_eval = Inl OutOfBounds"
| "minimax_min_loop (c # cs) (Suc n) depth alpha beta min_eval =
     (case minimax c (depth - 1) alpha beta True of
        Inl e \<Rightarrow> Inl e
      | Inr (eval, c') \<Rightarrow>
          if min beta eval \<le> alpha then Inr (min min_eval eval, c' # cs)
          else
            (case minimax_min_loop cs n depth alpha (min beta eval) (min min_eval eval) of
               Inl e \<Rightarrow> Inl e
             | Inr (min_eval', cs') \<Rightarrow> Inr (min_eval', c' # cs')))"
  by pat_completeness auto
termination
  by (relation "measure (\<lambda>x. case x of
         Inl (Inl (n, d, a, b, m)) \<Rightarrow> 2 * size n
       | Inl (Inr (cs, cnt, d, a, b, m)) \<Rightarrow> 2 * size_option (size_list size) cs + 1
       | Inr (Inl (cs, n, d, a, b, m)) \<Rightarrow> 2 * size_list size cs + 1
       | Inr (Inr (cs, n, d, a, b, m)) \<Rightarrow> 2 * size_list size cs + 1)") auto

text \<open>The overload of \<^verbatim>\<open>minimax\<close> without pruning (lines 444 to 468).\<close>

function (sequential) minimax_plain :: "Node \<Rightarrow> int \<Rightarrow> bool \<Rightarrow> error + (int \<times> Node)"
  and minimax_plain_children ::
    "Node list option \<Rightarrow> int \<Rightarrow> int \<Rightarrow> bool \<Rightarrow> error + (int \<times> Node list option)"
  and minimax_plain_max_loop :: "Node list \<Rightarrow> nat \<Rightarrow> int \<Rightarrow> int \<Rightarrow> error + (int \<times> Node list)"
  and minimax_plain_min_loop :: "Node list \<Rightarrow> nat \<Rightarrow> int \<Rightarrow> int \<Rightarrow> error + (int \<times> Node list)" where
  "minimax_plain (Node cs cnt ml st v) depth maximizing_player =
     (if depth = 0 then
        (case heuristic st of Inl e \<Rightarrow> Inl e | Inr h \<Rightarrow> Inr (h, Node cs cnt ml st v))
      else
        (case isGameOver st of
           Inl e \<Rightarrow> Inl e
         | Inr over \<Rightarrow>
             if over then
               (case heuristic st of Inl e \<Rightarrow> Inl e | Inr h \<Rightarrow> Inr (h, Node cs cnt ml st v))
             else
               (case minimax_plain_children cs cnt depth maximizing_player of
                  Inl e \<Rightarrow> Inl e
                | Inr (eval, cs') \<Rightarrow> Inr (eval, Node cs' cnt ml st eval))))"
| "minimax_plain_children None cnt depth maximizing_player =
     (if 0 < cnt then Inl NullPointer
      else Inr (if maximizing_player then -9999999 else 9999999, None))"
| "minimax_plain_children (Some cs) cnt depth maximizing_player =
     (if maximizing_player then
        (case minimax_plain_max_loop cs (nat cnt) depth (-9999999) of
           Inl e \<Rightarrow> Inl e
         | Inr (max_eval, cs') \<Rightarrow> Inr (max_eval, Some cs'))
      else
        (case minimax_plain_min_loop cs (nat cnt) depth 9999999 of
           Inl e \<Rightarrow> Inl e
         | Inr (min_eval, cs') \<Rightarrow> Inr (min_eval, Some cs')))"
| "minimax_plain_max_loop cs 0 depth max_eval = Inr (max_eval, cs)"
| "minimax_plain_max_loop [] (Suc n) depth max_eval = Inl OutOfBounds"
| "minimax_plain_max_loop (c # cs) (Suc n) depth max_eval =
     (case minimax_plain c (depth - 1) False of
        Inl e \<Rightarrow> Inl e
      | Inr (eval, c') \<Rightarrow>
          (case minimax_plain_max_loop cs n depth (max max_eval eval) of
             Inl e \<Rightarrow> Inl e
           | Inr (max_eval', cs') \<Rightarrow> Inr (max_eval', c' # cs')))"
| "minimax_plain_min_loop cs 0 depth min_eval = Inr (min_eval, cs)"
| "minimax_plain_min_loop [] (Suc n) depth min_eval = Inl OutOfBounds"
| "minimax_plain_min_loop (c # cs) (Suc n) depth min_eval =
     (case minimax_plain c (depth - 1) True of
        Inl e \<Rightarrow> Inl e
      | Inr (eval, c') \<Rightarrow>
          (case minimax_plain_min_loop cs n depth (min min_eval eval) of
             Inl e \<Rightarrow> Inl e
           | Inr (min_eval', cs') \<Rightarrow> Inr (min_eval', c' # cs')))"
  by pat_completeness auto
termination
  by (relation "measure (\<lambda>x. case x of
         Inl (Inl (n, d, m)) \<Rightarrow> 2 * size n
       | Inl (Inr (cs, cnt, d, m)) \<Rightarrow> 2 * size_option (size_list size) cs + 1
       | Inr (Inl (cs, n, d, m)) \<Rightarrow> 2 * size_list size cs + 1
       | Inr (Inr (cs, n, d, m)) \<Rightarrow> 2 * size_list size cs + 1)") auto

section \<open>The starting position\<close>

definition initial_board :: board where
  "initial_board =
     (\<lambda>i j. if (i = 3 \<and> j = 3) \<or> (i = 4 \<and> j = 4) then White
            else if (i = 3 \<and> j = 4) \<or> (i = 4 \<and> j = 3) then Black
            else Empty)"

text \<open>Two positions with a white disc on the left edge.\<close>

definition corner_board :: board where
  "corner_board = (\<lambda>i j. if i = 0 \<and> j = 0 then White else Empty)"

definition edge_board :: board where
  "edge_board =
     (\<lambda>i j. if i = 1 \<and> j = 0 then White else if i = 0 \<and> j = 7 then Black else Empty)"

section \<open>Exchanging the colours\<close>

text \<open>The board with every black disc turned white and every white disc turned black.\<close>

definition swapCell :: "cell \<Rightarrow> cell" where
  "swapCell x = (case x of Empty \<Rightarrow> Empty | Black \<Rightarrow> White | White \<Rightarrow> Black)"

definition colorSwap :: "board \<Rightarrow> board" where
  "colorSwap board = (\<lambda>i j. swapCell (board i j))"

section \<open>Comparing the two searches\<close>

text \<open>
  The relation between the value \<open>a\<close> the pruned search returns for the window from
  \<open>alpha\<close> to \<open>beta\<close> and the value \<open>m\<close> of the search without pruning: a value at or
  below \<open>alpha\<close> is an upper bound of \<open>m\<close>, a value at or above \<open>beta\<close> a lower bound,
  and a value strictly between the two is \<open>m\<close>.
\<close>

definition bounds :: "int \<Rightarrow> int \<Rightarrow> int \<Rightarrow> int \<Rightarrow> bool" where
  "bounds alpha beta a m =
     ((a \<le> alpha \<longrightarrow> m \<le> a) \<and> (alpha < a \<and> a < beta \<longrightarrow> m = a) \<and> (beta \<le> a \<longrightarrow> a \<le> m))"

text \<open>A board given by its rows, and the node of a tree at the end of a path of child indices.\<close>

definition board_of :: "cell list list \<Rightarrow> board" where
  "board_of rows = (\<lambda>i j. rows ! nat i ! nat j)"

fun node_at :: "Node \<Rightarrow> nat list \<Rightarrow> Node option" where
  "node_at n [] = Some n"
| "node_at n (i # path) =
     (case children n of
        None \<Rightarrow> None
      | Some cs \<Rightarrow> if i < length cs then node_at (cs ! i) path else None)"

text \<open>The \<open>val\<close> of the node at the end of a path, and the \<open>val\<close> of each of its children.\<close>

definition vals_at :: "Node \<Rightarrow> nat list \<Rightarrow> (int \<times> int list) option" where
  "vals_at n path =
     (case node_at n path of
        None \<Rightarrow> None
      | Some m \<Rightarrow> (case children m of None \<Rightarrow> None | Some cs \<Rightarrow> Some (val m, map val cs)))"

text \<open>A position with five empty cells, Black to move.\<close>

definition cut_board :: board where
  "cut_board = board_of
     [[White, Black, White, Black, Black, Black, Black, Empty],
      [White, White, White, Black, Black, Empty, Black, White],
      [White, Black, White, Black, Black, Black, Black, Black],
      [White, Black, White, White, White, White, Black, White],
      [Empty, Black, White, White, Empty, White, White, Black],
      [Black, Black, Black, White, White, White, Black, Black],
      [White, White, White, White, Black, Black, Black, Empty],
      [White, Black, White, White, Black, Black, White, Black]]"

section \<open>Runs of opposing discs\<close>

text \<open>
  The capture rule in the words of the specification. \<open>run board player r c d k\<close>: from
  the cell \<open>(r, c)\<close> in the direction \<open>d\<close>, the next \<open>k > 0\<close> cells are on the grid
  and hold discs of the opponent, and the cell after them is on the grid and holds a disc of
  the player.
\<close>

definition opponent :: "cell \<Rightarrow> cell" where
  "opponent player = (if player = Black then White else Black)"

definition run :: "board \<Rightarrow> cell \<Rightarrow> int \<Rightarrow> int \<Rightarrow> int \<times> int \<Rightarrow> nat \<Rightarrow> bool" where
  "run board player r c d k =
     (0 < k
      \<and> (\<forall>n. 0 < n \<and> n \<le> k \<longrightarrow>
             cellAt board (r + int n * fst d) (c + int n * snd d) = Inr (opponent player))
      \<and> cellAt board (r + int (Suc k) * fst d) (c + int (Suc k) * snd d) = Inr player)"

text \<open>
  From the cell \<open>(x, y)\<close> in the direction \<open>(d0, d1)\<close>: the first \<open>j\<close> cells, starting with
  \<open>(x, y)\<close> itself, are on the grid and hold \<open>other\<close>, and the next cell is on the grid and
  holds \<open>q\<close>.
\<close>

definition stretch :: "board \<Rightarrow> cell \<Rightarrow> int \<Rightarrow> int \<Rightarrow> int \<Rightarrow> int \<Rightarrow> nat \<Rightarrow> cell \<Rightarrow> bool" where
  "stretch board other d0 d1 x y j q =
     ((\<forall>n<j. cellAt board (x + int n * d0) (y + int n * d1) = Inr other)
      \<and> cellAt board (x + int j * d0) (y + int j * d1) = Inr q)"

text \<open>The cells of a run of length \<open>k\<close>, nearest first.\<close>

definition run_cells :: "int \<Rightarrow> int \<Rightarrow> int \<times> int \<Rightarrow> nat \<Rightarrow> (int \<times> int) list" where
  "run_cells r c d k = map (\<lambda>n. (r + int (Suc n) * fst d, c + int (Suc n) * snd d)) [0..<k]"

section \<open>The turn of the engine\<close>

definition MINIMAX_DEPTH :: int where
  "MINIMAX_DEPTH = 5"

text \<open>
  The comparison of a child's board with the current board in \<^verbatim>\<open>main\<close> (lines 606 to
  612): both loops run while the counter is below 7.
\<close>

definition same_config :: "board \<Rightarrow> board \<Rightarrow> bool" where
  "same_config child_state board =
     list_all (\<lambda>j. list_all (\<lambda>k. child_state j k = board j k) [0, 1, 2, 3, 4, 5, 6])
       [0, 1, 2, 3, 4, 5, 6]"

text \<open>
  The loop of \<^verbatim>\<open>main\<close> over the children of the root (lines 603 to 623), with the
  number \<open>n\<close> of iterations that are left: the first child whose \<open>val\<close> is the optimal
  value decides, and the loop ends there. The result is the new current board.
\<close>

fun ai_scan ::
  "Node list \<Rightarrow> nat \<Rightarrow> int \<Rightarrow> board \<Rightarrow> (int \<times> int) list \<Rightarrow> cell \<Rightarrow> error + board" where
  "ai_scan cs 0 optimal_val board moves player = Inr board"
| "ai_scan [] (Suc n) optimal_val board moves player = Inl OutOfBounds"
| "ai_scan (c # cs) (Suc n) optimal_val board moves player =
     (if val c = optimal_val then
        (if \<not> same_config (state c) board then Inr (state c)
         else
           (case moves of
              [] \<Rightarrow> Inl OutOfBounds
            | m # _ \<Rightarrow> makeMove board (fst m) (snd m) player))
      else ai_scan cs n optimal_val board moves player)"

text \<open>
  The branch of the game loop of \<^verbatim>\<open>main\<close> for the engine (line 522 and lines 585 to
  623): the move list of the player, the tree, the search and the scan.
\<close>

definition ai_turn :: "board \<Rightarrow> cell \<Rightarrow> error + board" where
  "ai_turn board player =
     (case calculateLegalMoves board player of
        Inl e \<Rightarrow> Inl e
      | Inr moves \<Rightarrow>
          (case CreateTree board MINIMAX_DEPTH player of
             Inl e \<Rightarrow> Inl e
           | Inr gametree \<Rightarrow>
               (case minimax gametree MINIMAX_DEPTH (- 99999999) 99999999 (player = Black) of
                  Inl e \<Rightarrow> Inl e
                | Inr (optimal_val, gametree') \<Rightarrow>
                    (case children gametree' of
                       None \<Rightarrow> if 0 < child_count gametree' then Inl NullPointer else Inr board
                     | Some cs \<Rightarrow>
                         ai_scan cs (nat (child_count gametree')) optimal_val board moves player))))"

text \<open>A position with the two empty cells \<open>(5,6)\<close> and \<open>(5,7)\<close>, Black to move.\<close>

definition last_column_board :: board where
  "last_column_board = board_of
     [[Black, White, White, White, White, White, Black, White],
      [Black, Black, White, White, Black, Black, White, White],
      [Black, White, White, Black, White, White, White, Black],
      [Black, Black, Black, White, White, White, White, White],
      [White, Black, White, Black, White, Black, Black, White],
      [Black, Black, White, White, Black, White, Empty, Empty],
      [Black, White, Black, White, Black, White, Black, Black],
      [Black, White, Black, Black, White, White, White, Black]]"

text \<open>The position after the opening move \<open>(2,3)\<close> of Black.\<close>

definition opening_board :: board where
  "opening_board =
     (\<lambda>i j. if i = 4 \<and> j = 4 then White
            else if (i = 2 \<and> j = 3) \<or> (i = 3 \<and> j = 3) \<or> (i = 3 \<and> j = 4) \<or> (i = 4 \<and> j = 3)
            then Black else Empty)"

section \<open>isLegalMove\<close>

text \<open>
  C8: \<^verbatim>\<open>isLegalMove\<close> fails exactly when the row or the column is outside \<open>[0,7]\<close>,
  and then with the range error; for a row and a column in range it returns, and the
  result is true exactly when the cell is empty and the move is in the supplied list.
  The function has no write to the board, so the board is the same afterwards.
\<close>

theorem isLegalMove_range:
  "((\<exists>e. isLegalMove board moves row col player = Inl e)
      \<longleftrightarrow> (row < 0 \<or> 7 < row \<or> col < 0 \<or> 7 < col))
   \<and> (\<forall>e. isLegalMove board moves row col player = Inl e \<longrightarrow> e = RangeError)
   \<and> (0 \<le> row \<and> row \<le> 7 \<and> 0 \<le> col \<and> col \<le> 7 \<longrightarrow>
        isLegalMove board moves row col player
          = Inr (board row col = Empty \<and> (row, col) \<in> set moves))"
  by (auto simp: isLegalMove_def)

theorem isLegalMove_range_witness:
  "isLegalMove initial_board [(2, 3), (3, 2), (4, 5), (5, 4)] 2 3 Black = Inr True
   \<and> isLegalMove initial_board [(2, 3), (3, 2), (4, 5), (5, 4)] 3 3 Black = Inr False
   \<and> isLegalMove initial_board [(2, 3), (3, 2), (4, 5), (5, 4)] 8 3 Black = Inl RangeError"
proof -
  have "isLegalMove initial_board [(2, 3), (3, 2), (4, 5), (5, 4)] 2 3 Black = Inr True"
    using isLegalMove_range [of initial_board "[(2, 3), (3, 2), (4, 5), (5, 4)]" 2 3 Black]
    by (simp add: initial_board_def)
  moreover have "isLegalMove initial_board [(2, 3), (3, 2), (4, 5), (5, 4)] 3 3 Black = Inr False"
    using isLegalMove_range [of initial_board "[(2, 3), (3, 2), (4, 5), (5, 4)]" 3 3 Black]
    by (simp add: initial_board_def)
  moreover have "isLegalMove initial_board [(2, 3), (3, 2), (4, 5), (5, 4)] 8 3 Black = Inl RangeError"
    using isLegalMove_range [of initial_board "[(2, 3), (3, 2), (4, 5), (5, 4)]" 8 3 Black]
    by auto
  ultimately show ?thesis by simp
qed

section \<open>The off-board test of isFlippable\<close>

text \<open>
  C2: every cell the walk of \<^verbatim>\<open>isFlippable\<close> reads is on the grid. The code does not
  do this: for Black at \<open>(0,1)\<close> with a white disc at \<open>(0,0)\<close>, the walk to the left
  passes the off-board test with column \<open>-1\<close> and reads \<^verbatim>\<open>board[0][-1]\<close>.
\<close>

theorem isFlippable_reads_off_board:
  "cellAt corner_board 0 (-1) = Inl OutOfBounds
   \<and> isFlippable_walk corner_board White 0 (-1) 0 0 White = Inl OutOfBounds
   \<and> isFlippable corner_board 0 1 Black = Inl OutOfBounds"
  by code_simp

text \<open>
  C1: a move is in the list of \<^verbatim>\<open>calculateLegalMoves\<close> exactly when its cell is empty and
  some direction holds a run of opposing discs closed, on the grid, by a disc of the mover.
  The code does not do this: for Black on a board with a white disc at \<open>(1,0)\<close> and a
  black disc at \<open>(0,7)\<close>, the sentence says that there is no legal move, and the code, testing the
  empty cell \<open>(1,1)\<close>, reads \<^verbatim>\<open>board[1][-1]\<close> and has no defined result. Whenever the
  code returns, its list is the one the sentence describes: this is the lemma
  \<open>calculateLegalMoves_when_defined\<close> below.
\<close>

theorem calculateLegalMoves_reads_off_board:
  "calculateLegalMoves edge_board Black = Inl OutOfBounds"
  by code_simp

section \<open>The values the search records\<close>

text \<open>
  C5: after a call of \<^verbatim>\<open>minimax\<close> every node it visited holds its value in \<open>val\<close>,
  the nodes of the base case too. The code does not do this. On the engine's turn as Black
  on \<open>last_column_board\<close> the search, five plies deep, returns 12 and records 6 and 12 on
  the two children of the root; the only child of each of them is visited with depth 3 and a
  board on which the game is over, it returns its heuristic, 6 and 12, and is left with
  \<open>val = 0\<close>. Searching the starting position one ply deep gives the value 3, which is
  the heuristic of each of the four children, visited with depth 0, and the four children
  are left with \<open>val = 0\<close>.
\<close>

theorem minimax_base_case_leaves_val:
  "(case CreateTree last_column_board MINIMAX_DEPTH Black of
      Inl e \<Rightarrow> None
    | Inr t \<Rightarrow>
        (case minimax t MINIMAX_DEPTH (- 99999999) 99999999 (Black = Black) of
           Inl e \<Rightarrow> None
         | Inr (v, t') \<Rightarrow>
             Some (v, vals_at t' [], vals_at t' [0], vals_at t' [1],
               map_option (\<lambda>n. (val n, isGameOver (state n), heuristic (state n)))
                 (node_at t' [0, 0]),
               map_option (\<lambda>n. (val n, isGameOver (state n), heuristic (state n)))
                 (node_at t' [1, 0]))))
   = Some (12, Some (12, [6, 12]), Some (6, [0]), Some (12, [0]),
       Some (0, Inr True, Inr 6), Some (0, Inr True, Inr 12))
   \<and> (case CreateTree initial_board 1 Black of
        Inl e \<Rightarrow> None
      | Inr t \<Rightarrow>
          (case minimax t 1 (- 99999999) 99999999 True of
             Inl e \<Rightarrow> None
           | Inr (v, t') \<Rightarrow> Some (v, val t', map_option (map val) (children t'))))
       = Some (3, 3, Some [0, 0, 0, 0])"
  by code_simp

section \<open>The heuristic under an exchange of the colours\<close>

lemma swapCell_simps [simp]:
  "swapCell Empty = Empty" "swapCell Black = White" "swapCell White = Black"
  by (simp_all add: swapCell_def)

lemma swapCell_eq_iff [simp]: "swapCell x = swapCell y \<longleftrightarrow> x = y"
  by (cases x; cases y) simp_all

lemma swapCell_eq_Empty [simp]: "swapCell x = Empty \<longleftrightarrow> x = Empty"
  by (cases x) simp_all

lemma cellAt_colorSwap:
  "cellAt (colorSwap board) r c = (case cellAt board r c of Inl e \<Rightarrow> Inl e | Inr x \<Rightarrow> Inr (swapCell x))"
  by (simp add: cellAt_def colorSwap_def)

lemma isFlippable_walk_colorSwap:
  "isFlippable_walk (colorSwap board) (swapCell other) d0 d1 r c (swapCell ch)
     = (case isFlippable_walk board other d0 d1 r c ch of
          Inl e \<Rightarrow> Inl e | Inr x \<Rightarrow> Inr (swapCell x))"
proof (induction board other d0 d1 r c ch rule: isFlippable_walk.induct)
  case (1 board other d0 d1 r c ch)
  let ?off = "r + d0 > 7 \<or> r + d0 < 0 \<or> c + d1 > 7 \<or> r + d0 < 0"
  show ?case
  proof (cases "ch = other \<and> \<not> ?off")
    case False
    then show ?thesis
      by (subst isFlippable_walk.simps, subst (2) isFlippable_walk.simps) auto
  next
    case True
    show ?thesis
    proof (cases "cellAt board (r + d0) (c + d1)")
      case (Inl e)
      with True show ?thesis
        by (subst isFlippable_walk.simps, subst (2) isFlippable_walk.simps)
           (simp add: cellAt_colorSwap)
    next
      case (Inr x)
      show ?thesis
      proof (cases "d0 = 0 \<and> d1 = 0")
        case z: True
        with True Inr show ?thesis
          by (subst isFlippable_walk.simps, subst (2) isFlippable_walk.simps)
             (simp add: cellAt_colorSwap)
      next
        case nz: False
        have "isFlippable_walk (colorSwap board) (swapCell other) d0 d1 (r + d0) (c + d1) (swapCell x)
                = (case isFlippable_walk board other d0 d1 (r + d0) (c + d1) x of
                     Inl e \<Rightarrow> Inl e | Inr x \<Rightarrow> Inr (swapCell x))"
          using "1.IH" [of x] True Inr nz by simp
        with True Inr nz show ?thesis
          by (subst isFlippable_walk.simps, subst (2) isFlippable_walk.simps)
             (auto simp: cellAt_colorSwap)
      qed
    qed
  qed
qed

lemma isFlippable_loop_colorSwap:
  assumes "player \<noteq> Empty"
  shows "isFlippable_loop (colorSwap board) row col (swapCell player) ds
           = isFlippable_loop board row col player ds"
proof -
  let ?o = "if player = Black then White else Black"
  have other: "(if swapCell player = Black then White else Black) = swapCell ?o"
    using assms by (cases player) simp_all
  show ?thesis
  proof (induction ds)
    case Nil
    show ?case by simp
  next
    case (Cons d ds)
    have w: "isFlippable_walk (colorSwap board) (swapCell ?o) (fst d) (snd d)
               (row + fst d) (col + snd d) (swapCell ?o)
             = (case isFlippable_walk board ?o (fst d) (snd d) (row + fst d) (col + snd d) ?o of
                  Inl e \<Rightarrow> Inl e | Inr x \<Rightarrow> Inr (swapCell x))"
      by (rule isFlippable_walk_colorSwap)
    show ?case
    proof (cases "cellAt board (row + fst d) (col + snd d)")
      case (Inl e)
      then show ?thesis
        unfolding isFlippable_loop.simps other Cons.IH by (simp add: cellAt_colorSwap)
    next
      case (Inr x)
      show ?thesis
      proof (cases "x = ?o")
        case False
        with Inr show ?thesis
          unfolding isFlippable_loop.simps other Cons.IH by (simp add: cellAt_colorSwap)
      next
        case True
        show ?thesis
        proof (cases "isFlippable_walk board ?o (fst d) (snd d) (row + fst d) (col + snd d) ?o")
          case l: (Inl e)
          with Inr True w show ?thesis
            unfolding isFlippable_loop.simps other Cons.IH by (simp add: cellAt_colorSwap)
        next
          case r: (Inr y)
          with Inr True w show ?thesis
            unfolding isFlippable_loop.simps other Cons.IH by (simp add: cellAt_colorSwap)
        qed
      qed
    qed
  qed
qed

lemma calculateLegalMoves_loop_colorSwap:
  assumes "player \<noteq> Empty"
  shows "calculateLegalMoves_loop (colorSwap board) (swapCell player) ps acc
           = calculateLegalMoves_loop board player ps acc"
proof (induction ps arbitrary: acc)
  case Nil
  show ?case by simp
next
  case (Cons p ps)
  have e: "colorSwap board (fst p) (snd p) = Empty \<longleftrightarrow> board (fst p) (snd p) = Empty"
    by (simp add: colorSwap_def)
  have f: "isFlippable (colorSwap board) (fst p) (snd p) (swapCell player)
             = isFlippable board (fst p) (snd p) player"
    by (simp add: isFlippable_def isFlippable_loop_colorSwap [OF assms])
  show ?case
    unfolding calculateLegalMoves_loop.simps e f Cons.IH ..
qed

lemma calculateLegalMoves_colorSwap:
  "calculateLegalMoves (colorSwap board) White = calculateLegalMoves board Black"
  "calculateLegalMoves (colorSwap board) Black = calculateLegalMoves board White"
  using calculateLegalMoves_loop_colorSwap [of Black board cells "[]"]
    calculateLegalMoves_loop_colorSwap [of White board cells "[]"]
  by (simp_all add: calculateLegalMoves_def)

lemma getScore_colorSwap:
  "getScore (colorSwap board) (swapCell player) = getScore board player"
proof -
  have "(\<lambda>ij total. if colorSwap board (fst ij) (snd ij) = swapCell player then total + 1 else total)
      = (\<lambda>ij (total::int). if board (fst ij) (snd ij) = player then total + 1 else total)"
    by (simp add: colorSwap_def)
  then show ?thesis by (simp add: getScore_def)
qed

lemma corners_colorSwap:
  "corners (colorSwap board) (swapCell player) = corners board player"
  by (simp add: corners_def colorSwap_def)

lemma isFlippable_walk_error:
  "isFlippable_walk board other d0 d1 r c ch = Inl e \<Longrightarrow> \<not> (d0 = 0 \<and> d1 = 0) \<Longrightarrow> e = OutOfBounds"
proof (induction board other d0 d1 r c ch rule: isFlippable_walk.induct)
  case (1 board other d0 d1 r c ch)
  from "1.prems" show ?case
    by (subst (asm) isFlippable_walk.simps)
       (auto simp: cellAt_def split: if_splits intro: "1.IH")
qed

lemma isFlippable_loop_error:
  "isFlippable_loop board row col player ds = Inl e \<Longrightarrow> (0, 0) \<notin> set ds \<Longrightarrow> e = OutOfBounds"
proof (induction ds)
  case Nil
  then show ?case by simp
next
  case (Cons d ds)
  have nz: "\<not> (fst d = 0 \<and> snd d = 0)"
    using Cons.prems(2) by (cases d) auto
  from Cons.prems(1) show ?case
    using Cons.IH Cons.prems(2) isFlippable_walk_error [OF _ nz]
    by (auto simp: cellAt_def split: if_splits sum.splits)
qed

lemma isFlippable_error: "isFlippable board row col player = Inl e \<Longrightarrow> e = OutOfBounds"
  unfolding isFlippable_def
  by (erule isFlippable_loop_error) (simp add: surroundingPosDeltas_def)

lemma calculateLegalMoves_loop_error:
  "calculateLegalMoves_loop board player ps acc = Inl e \<Longrightarrow> e = OutOfBounds"
proof (induction ps arbitrary: acc)
  case Nil
  then show ?case by simp
next
  case (Cons p ps)
  from Cons.prems show ?case
    using Cons.IH isFlippable_error
    by (auto split: if_splits sum.splits)
qed

lemma calculateLegalMoves_error: "calculateLegalMoves board player = Inl e \<Longrightarrow> e = OutOfBounds"
  unfolding calculateLegalMoves_def by (rule calculateLegalMoves_loop_error)

lemma heuristic_colorSwap_neg:
  "heuristic (colorSwap board) = (case heuristic board of Inl e \<Rightarrow> Inl e | Inr h \<Rightarrow> Inr (- h))"
proof -
  have s: "getScore (colorSwap board) Black = getScore board White"
    "getScore (colorSwap board) White = getScore board Black"
    using getScore_colorSwap [of board White] getScore_colorSwap [of board Black] by simp_all
  have c: "corners (colorSwap board) Black = corners board White"
    "corners (colorSwap board) White = corners board Black"
    using corners_colorSwap [of board White] corners_colorSwap [of board Black] by simp_all
  show ?thesis
    unfolding heuristic_def getBlackLegalMoves_def getWhiteLegalMoves_def
      calculateLegalMoves_colorSwap s c
    using calculateLegalMoves_error [of board Black] calculateLegalMoves_error [of board White]
    by (auto split: sum.splits)
qed

lemma fold_count_filter:
  "fold (\<lambda>ij total. if P ij then total + 1 else total) ps (t::int) = t + int (length (filter P ps))"
  by (induction ps arbitrary: t) simp_all

lemma getScore_filter:
  "getScore board player = int (length (filter (\<lambda>ij. board (fst ij) (snd ij) = player) cells))"
  unfolding getScore_def by (simp add: fold_count_filter)

lemma corners_filter:
  "corners board player
     = 10 * int (length (filter (\<lambda>ij. board (fst ij) (snd ij) = player)
                           [(0, 0), (7, 0), (0, 7), (7, 7)]))"
  by (simp add: corners_def)

text \<open>
  C9: the heuristic of the board with the colours exchanged is the negation of the
  heuristic of the board; when the code has no defined result for one board it has none
  for the other. The heuristic is the score of Black minus the score of White, and the score
  of a player is the number of its legal moves, plus the number of its discs, plus 10 for
  each of the corners \<open>(0,0)\<close>, \<open>(7,0)\<close>, \<open>(0,7)\<close>, \<open>(7,7)\<close> that holds its disc.
\<close>

theorem heuristic_colorSwap:
  "heuristic (colorSwap board) = (case heuristic board of Inl e \<Rightarrow> Inl e | Inr h \<Rightarrow> Inr (- h))
   \<and> (\<forall>bm wm. calculateLegalMoves board Black = Inr bm \<and> calculateLegalMoves board White = Inr wm
         \<longrightarrow> heuristic board =
               Inr ((int (length bm)
                      + int (length (filter (\<lambda>ij. board (fst ij) (snd ij) = Black) cells))
                      + 10 * int (length (filter (\<lambda>ij. board (fst ij) (snd ij) = Black)
                                            [(0, 0), (7, 0), (0, 7), (7, 7)])))
                    - (int (length wm)
                      + int (length (filter (\<lambda>ij. board (fst ij) (snd ij) = White) cells))
                      + 10 * int (length (filter (\<lambda>ij. board (fst ij) (snd ij) = White)
                                            [(0, 0), (7, 0), (0, 7), (7, 7)])))))"
proof (rule conjI)
  show "heuristic (colorSwap board)
          = (case heuristic board of Inl e \<Rightarrow> Inl e | Inr h \<Rightarrow> Inr (- h))"
    by (rule heuristic_colorSwap_neg)
next
  show "\<forall>bm wm. calculateLegalMoves board Black = Inr bm \<and> calculateLegalMoves board White = Inr wm
         \<longrightarrow> heuristic board =
               Inr ((int (length bm)
                      + int (length (filter (\<lambda>ij. board (fst ij) (snd ij) = Black) cells))
                      + 10 * int (length (filter (\<lambda>ij. board (fst ij) (snd ij) = Black)
                                            [(0, 0), (7, 0), (0, 7), (7, 7)])))
                    - (int (length wm)
                      + int (length (filter (\<lambda>ij. board (fst ij) (snd ij) = White) cells))
                      + 10 * int (length (filter (\<lambda>ij. board (fst ij) (snd ij) = White)
                                            [(0, 0), (7, 0), (0, 7), (7, 7)]))))"
    unfolding heuristic_def getBlackLegalMoves_def getWhiteLegalMoves_def
      getScore_filter corners_filter
    by simp
qed

theorem heuristic_colorSwap_witness:
  "heuristic opening_board = Inr 3 \<and> heuristic (colorSwap opening_board) = Inr (- 3)"
proof -
  have h: "heuristic opening_board = Inr 3" by code_simp
  from heuristic_colorSwap [of opening_board, THEN conjunct1] h show ?thesis by simp
qed

section \<open>The tree that CreateTree builds\<close>

lemma calculateLegalMoves_loop_filter:
  "calculateLegalMoves_loop board player ps acc = Inr ml \<Longrightarrow>
     ml = acc @ filter (\<lambda>ij. board (fst ij) (snd ij) = Empty
                          \<and> isFlippable board (fst ij) (snd ij) player = Inr True) ps"
proof (induction ps arbitrary: acc)
  case Nil
  then show ?case by simp
next
  case (Cons p ps)
  show ?case
  proof (cases "board (fst p) (snd p) = Empty")
    case False
    with Cons.prems Cons.IH [of acc] show ?thesis by simp
  next
    case True
    show ?thesis
    proof (cases "isFlippable board (fst p) (snd p) player")
      case (Inl e)
      with True Cons.prems show ?thesis by simp
    next
      case (Inr f)
      with True Cons.prems Cons.IH [of acc] Cons.IH [of "acc @ [p]"] show ?thesis
        by (cases f) simp_all
    qed
  qed
qed

lemma calculateLegalMoves_filter:
  "calculateLegalMoves board player = Inr ml \<Longrightarrow>
     ml = filter (\<lambda>ij. board (fst ij) (snd ij) = Empty
                    \<and> isFlippable board (fst ij) (snd ij) player = Inr True) cells"
  unfolding calculateLegalMoves_def by (drule calculateLegalMoves_loop_filter) simp

lemma CreateTree_loop_children:
  "CreateTree_loop board depth player ms = Inr cs \<Longrightarrow>
     length cs = length ms \<and>
     (\<forall>i<length ms. \<exists>tmp_board.
         makeMove board (fst (ms ! i)) (snd (ms ! i)) player = Inr tmp_board
         \<and> CreateTree tmp_board (depth - 1) (if player = White then Black else White) = Inr (cs ! i))"
proof (induction ms arbitrary: cs)
  case Nil
  then show ?case by simp
next
  case (Cons m ms)
  from Cons.prems obtain tmp_board child cs' where
    mv: "makeMove board (fst m) (snd m) player = Inr tmp_board"
    and ch: "CreateTree tmp_board (depth - 1) (if player = White then Black else White) = Inr child"
    and rest: "CreateTree_loop board depth player ms = Inr cs'"
    and cs: "cs = child # cs'"
    by (auto split: sum.splits)
  from Cons.IH [OF rest] have len: "length cs' = length ms"
    and ih: "\<And>i. i < length ms \<Longrightarrow> \<exists>tmp_board.
         makeMove board (fst (ms ! i)) (snd (ms ! i)) player = Inr tmp_board
         \<and> CreateTree tmp_board (depth - 1) (if player = White then Black else White) = Inr (cs' ! i)"
    by simp_all
  show ?case
  proof (intro conjI allI impI)
    show "length cs = length (m # ms)" using len cs by simp
  next
    fix i assume "i < length (m # ms)"
    then show "\<exists>tmp_board.
         makeMove board (fst ((m # ms) ! i)) (snd ((m # ms) ! i)) player = Inr tmp_board
         \<and> CreateTree tmp_board (depth - 1) (if player = White then Black else White) = Inr (cs ! i)"
      using mv ch ih [of "i - 1"] cs by (cases i) auto
  qed
qed

text \<open>
  C7: for a depth that is not negative, the node that \<^verbatim>\<open>CreateTree\<close> returns holds the
  board and the legal moves of the player, in the row-major order of the cells. When
  the move list is empty or the depth is 0 it has no children, whatever the depth; otherwise
  it has one child for each move, in the order of the list, and the child is the tree that
  \<^verbatim>\<open>CreateTree\<close> builds, one ply less deep and for the other player, from the board
  that \<^verbatim>\<open>makeMove\<close> makes of the node's board and that move. The children are
  results of \<^verbatim>\<open>CreateTree\<close> themselves, so the same holds at every node.
\<close>

theorem CreateTree_node:
  assumes "0 \<le> depth" and "player = Black \<or> player = White"
    and "CreateTree board depth player = Inr node"
  shows "state node = board
     \<and> calculateLegalMoves board player = Inr (move_list node)
     \<and> move_list node = filter (\<lambda>ij. board (fst ij) (snd ij) = Empty
                    \<and> isFlippable board (fst ij) (snd ij) player = Inr True) cells
     \<and> child_count node = int (length (move_list node))
     \<and> (if move_list node = [] \<or> depth = 0 then children node = None
         else \<exists>cs. children node = Some cs \<and> length cs = length (move_list node)
            \<and> (\<forall>i<length (move_list node). \<exists>tmp_board.
                  makeMove board (fst (move_list node ! i)) (snd (move_list node ! i)) player
                    = Inr tmp_board
                  \<and> CreateTree tmp_board (depth - 1) (if player = Black then White else Black)
                    = Inr (cs ! i)))"
proof -
  obtain ml where ml: "calculateLegalMoves board player = Inr ml"
    using assms(2,3)
    by (auto simp: CreateTree.simps(1) getWhiteLegalMoves_def getBlackLegalMoves_def
          split: sum.splits if_splits)
  have sel: "(if player = White then getWhiteLegalMoves board else getBlackLegalMoves board) = Inr ml"
    using assms(2) ml by (auto simp: getWhiteLegalMoves_def getBlackLegalMoves_def)
  have opp: "(if player = White then Black else White) = (if player = Black then White else Black)"
    using assms(2) by auto
  show ?thesis
  proof (cases "ml = [] \<or> depth = 0")
    case True
    then have "node = Node None (int (length ml)) ml board 0"
      using assms(1,3) sel by (subst (asm) CreateTree.simps(1)) auto
    with True ml calculateLegalMoves_filter [OF ml] show ?thesis by simp
  next
    case False
    then obtain cs where loop: "CreateTree_loop board depth player ml = Inr cs"
      and node: "node = Node (Some cs) (int (length ml)) ml board 0"
      using assms(1,3) sel by (subst (asm) CreateTree.simps(1)) (auto split: sum.splits)
    from CreateTree_loop_children [OF loop] False node ml calculateLegalMoves_filter [OF ml] opp
    show ?thesis by simp
  qed
qed

theorem CreateTree_node_witness:
  "\<exists>node cs. CreateTree initial_board 1 Black = Inr node
     \<and> move_list node = [(2, 3), (3, 2), (4, 5), (5, 4)] \<and> child_count node = 4
     \<and> children node = Some cs \<and> length cs = 4"
proof -
  have "\<not> isl (CreateTree initial_board 1 Black)" by code_simp
  then obtain node where n: "CreateTree initial_board 1 Black = Inr node"
    by (cases "CreateTree initial_board 1 Black") auto
  have ml: "calculateLegalMoves initial_board Black = Inr [(2, 3), (3, 2), (4, 5), (5, 4)]"
    by code_simp
  have h0: "(0::int) \<le> 1" and h1: "Black = Black \<or> Black = White"
    by simp_all
  note t = CreateTree_node [OF h0 h1 n]
  have m: "move_list node = [(2, 3), (3, 2), (4, 5), (5, 4)]"
    using t ml by simp
  have c: "child_count node = 4"
    using t m by simp
  note e = t [THEN conjunct2, THEN conjunct2, THEN conjunct2, THEN conjunct2]
  have ne: "(move_list node = [] \<or> (1::int) = 0) = False"
    using m by simp
  from e [unfolded ne if_False] obtain cs where
    cs: "children node = Some cs" "length cs = length (move_list node)"
    by blast
  have "length cs = 4" using cs(2) m by simp
  with n m c cs(1) show ?thesis by blast
qed

section \<open>The pruned search and the search without pruning\<close>

lemma bounds_refl: "bounds alpha beta a a"
  by (simp add: bounds_def)

lemma max_done:
  "alpha < beta \<Longrightarrow> a0 \<le> alpha \<Longrightarrow> alpha \<le> max a0 me \<Longrightarrow> M0 \<le> me \<Longrightarrow> M0 = me \<or> me \<le> a0
     \<Longrightarrow> bounds a0 beta me M0"
  unfolding bounds_def by linarith

lemma max_cut:
  "bounds alpha beta e em \<Longrightarrow> alpha < beta \<Longrightarrow> beta \<le> max alpha e \<Longrightarrow> a0 \<le> alpha \<Longrightarrow> M0 \<le> me
     \<Longrightarrow> M0 = me \<or> me \<le> a0 \<Longrightarrow> max M0 em \<le> m \<Longrightarrow> bounds a0 beta (max me e) m"
  unfolding bounds_def by linarith

lemma max_step:
  "bounds alpha beta e em \<Longrightarrow> alpha < beta \<Longrightarrow> \<not> beta \<le> max alpha e \<Longrightarrow> a0 \<le> alpha
     \<Longrightarrow> alpha \<le> max a0 me \<Longrightarrow> M0 \<le> me \<Longrightarrow> M0 = me \<or> me \<le> a0
     \<Longrightarrow> max alpha e < beta \<and> a0 \<le> max alpha e \<and> max alpha e \<le> max a0 (max me e)
         \<and> max M0 em \<le> max me e \<and> (max M0 em = max me e \<or> max me e \<le> a0)"
  unfolding bounds_def by linarith

lemma min_done:
  "alpha < beta \<Longrightarrow> beta \<le> b0 \<Longrightarrow> min b0 me \<le> beta \<Longrightarrow> me \<le> M0 \<Longrightarrow> M0 = me \<or> b0 \<le> me
     \<Longrightarrow> bounds alpha b0 me M0"
  unfolding bounds_def by linarith

lemma min_cut:
  "bounds alpha beta e em \<Longrightarrow> alpha < beta \<Longrightarrow> min beta e \<le> alpha \<Longrightarrow> beta \<le> b0 \<Longrightarrow> me \<le> M0
     \<Longrightarrow> M0 = me \<or> b0 \<le> me \<Longrightarrow> m \<le> min M0 em \<Longrightarrow> bounds alpha b0 (min me e) m"
  unfolding bounds_def by linarith

lemma min_step:
  "bounds alpha beta e em \<Longrightarrow> alpha < beta \<Longrightarrow> \<not> min beta e \<le> alpha \<Longrightarrow> beta \<le> b0
     \<Longrightarrow> min b0 me \<le> beta \<Longrightarrow> me \<le> M0 \<Longrightarrow> M0 = me \<or> b0 \<le> me
     \<Longrightarrow> alpha < min beta e \<and> min beta e \<le> b0 \<and> min b0 (min me e) \<le> min beta e
         \<and> min me e \<le> min M0 em \<and> (min M0 em = min me e \<or> b0 \<le> min me e)"
  unfolding bounds_def by linarith


lemma minimax_plain_max_loop_ge:
  "minimax_plain_max_loop cs k d M0 = Inr (m, r) \<Longrightarrow> M0 \<le> m"
proof (induction cs arbitrary: k M0 m r)
  case Nil
  then show ?case by (cases k) simp_all
next
  case (Cons c cs)
  show ?case
  proof (cases k)
    case 0
    with Cons.prems show ?thesis by simp
  next
    case (Suc n)
    with Cons.prems obtain em r' where
      "minimax_plain_max_loop cs n d (max M0 em) = Inr (m, r')"
      by (auto split: sum.splits prod.splits)
    from Cons.IH [OF this] show ?thesis by simp
  qed
qed

lemma minimax_plain_min_loop_le:
  "minimax_plain_min_loop cs k d M0 = Inr (m, r) \<Longrightarrow> m \<le> M0"
proof (induction cs arbitrary: k M0 m r)
  case Nil
  then show ?case by (cases k) simp_all
next
  case (Cons c cs)
  show ?case
  proof (cases k)
    case 0
    with Cons.prems show ?thesis by simp
  next
    case (Suc n)
    with Cons.prems obtain em r' where
      "minimax_plain_min_loop cs n d (min M0 em) = Inr (m, r')"
      by (auto split: sum.splits prod.splits)
    from Cons.IH [OF this] show ?thesis by simp
  qed
qed

lemma minimax_bounds_aux:
  "\<forall>a n' m n''. alpha < beta \<longrightarrow> minimax n d alpha beta mx = Inr (a, n')
      \<longrightarrow> minimax_plain n d mx = Inr (m, n'') \<longrightarrow> bounds alpha beta a m"
  "\<forall>a r m r'. alpha < beta \<longrightarrow> minimax_children cso cnt d alpha beta mx = Inr (a, r)
      \<longrightarrow> minimax_plain_children cso cnt d mx = Inr (m, r') \<longrightarrow> bounds alpha beta a m"
  "\<forall>a0 M0 a r m r'. alpha < beta \<longrightarrow> a0 \<le> alpha \<longrightarrow> alpha \<le> max a0 me \<longrightarrow> M0 \<le> me
      \<longrightarrow> (M0 = me \<or> me \<le> a0) \<longrightarrow> minimax_max_loop cs k d alpha beta me = Inr (a, r)
      \<longrightarrow> minimax_plain_max_loop cs k d M0 = Inr (m, r') \<longrightarrow> bounds a0 beta a m"
  "\<forall>b0 M0 a r m r'. alpha < beta \<longrightarrow> beta \<le> b0 \<longrightarrow> min b0 me \<le> beta \<longrightarrow> me \<le> M0
      \<longrightarrow> (M0 = me \<or> b0 \<le> me) \<longrightarrow> minimax_min_loop cs k d alpha beta me = Inr (a, r)
      \<longrightarrow> minimax_plain_min_loop cs k d M0 = Inr (m, r') \<longrightarrow> bounds alpha b0 a m"
proof (induction n d alpha beta mx and cso cnt d alpha beta mx and cs k d alpha beta me
         and cs k d alpha beta me
       rule: minimax_minimax_children_minimax_max_loop_minimax_min_loop.induct)
  case (1 cs cnt ml st v depth alpha beta maximizing_player)
  show ?case
  proof (intro allI impI)
    fix a n' m n''
    assume w: "alpha < beta"
      and p: "minimax (Node cs cnt ml st v) depth alpha beta maximizing_player = Inr (a, n')"
      and q: "minimax_plain (Node cs cnt ml st v) depth maximizing_player = Inr (m, n'')"
    show "bounds alpha beta a m"
    proof (cases "depth = 0")
      case True
      with p q have "a = m" by (auto split: sum.splits)
      then show ?thesis by (simp add: bounds_refl)
    next
      case False
      with p obtain over where over: "isGameOver st = Inr over"
        by (auto split: sum.splits)
      show ?thesis
      proof (cases over)
        case True
        with p q False over have "a = m" by (auto split: sum.splits)
        then show ?thesis by (simp add: bounds_refl)
      next
        case nover: False
        from p False over nover obtain r where
          pr: "minimax_children cs cnt depth alpha beta maximizing_player = Inr (a, r)"
          by (auto split: sum.splits)
        from q False over nover obtain r' where
          qr: "minimax_plain_children cs cnt depth maximizing_player = Inr (m, r')"
          by (auto split: sum.splits)
        from "1.IH" [OF False over nover] w pr qr show ?thesis by blast
      qed
    qed
  qed
next
  case (2 cnt depth alpha beta maximizing_player)
  show ?case
    by (auto simp: bounds_refl split: if_splits)
next
  case (3 cs cnt depth alpha beta maximizing_player)
  show ?case
  proof (intro allI impI)
    fix a r m r'
    assume w: "alpha < beta"
      and p: "minimax_children (Some cs) cnt depth alpha beta maximizing_player = Inr (a, r)"
      and q: "minimax_plain_children (Some cs) cnt depth maximizing_player = Inr (m, r')"
    show "bounds alpha beta a m"
    proof (cases maximizing_player)
      case True
      from p True obtain s where
        ps: "minimax_max_loop cs (nat cnt) depth alpha beta (- 9999999) = Inr (a, s)"
        by (auto split: sum.splits)
      from q True obtain s' where
        qs: "minimax_plain_max_loop cs (nat cnt) depth (- 9999999) = Inr (m, s')"
        by (auto split: sum.splits)
      have "alpha \<le> max alpha (- 9999999)" by simp
      with "3.IH"(1) [OF True] w ps qs show ?thesis by blast
    next
      case False
      from p False obtain s where
        ps: "minimax_min_loop cs (nat cnt) depth alpha beta 9999999 = Inr (a, s)"
        by (auto split: sum.splits)
      from q False obtain s' where
        qs: "minimax_plain_min_loop cs (nat cnt) depth 9999999 = Inr (m, s')"
        by (auto split: sum.splits)
      have "min beta 9999999 \<le> beta" by simp
      with "3.IH"(2) [OF False] w ps qs show ?thesis by blast
    qed
  qed
next
  case (4 cs depth alpha beta max_eval)
  show ?case by (auto intro: max_done)
next
  case (5 n depth alpha beta max_eval)
  show ?case by simp
next
  case (6 c cs n depth alpha beta max_eval)
  show ?case
  proof (intro allI impI)
    fix a0 M0 a r m r'
    assume w: "alpha < beta" and i1: "a0 \<le> alpha" and i2: "alpha \<le> max a0 max_eval"
      and i3: "M0 \<le> max_eval" and i4: "M0 = max_eval \<or> max_eval \<le> a0"
      and p: "minimax_max_loop (c # cs) (Suc n) depth alpha beta max_eval = Inr (a, r)"
      and q: "minimax_plain_max_loop (c # cs) (Suc n) depth M0 = Inr (m, r')"
    from p obtain e c' where pc: "minimax c (depth - 1) alpha beta False = Inr (e, c')"
      by (auto split: sum.splits)
    from q obtain em c'' s' where qc: "minimax_plain c (depth - 1) False = Inr (em, c'')"
      and qs: "minimax_plain_max_loop cs n depth (max M0 em) = Inr (m, s')"
      by (auto split: sum.splits)
    from "6.IH"(1) w pc qc have b: "bounds alpha beta e em" by blast
    show "bounds a0 beta a m"
    proof (cases "beta \<le> max alpha e")
      case True
      with p pc have a: "a = max max_eval e" by simp
      from minimax_plain_max_loop_ge [OF qs] have "max M0 em \<le> m" .
      from max_cut [OF b w True i1 i3 i4 this] a show ?thesis by simp
    next
      case False
      with p pc obtain s where
        ps: "minimax_max_loop cs n depth (max alpha e) beta (max max_eval e) = Inr (a, s)"
        by (auto split: sum.splits)
      from max_step [OF b w False i1 i2 i3 i4] "6.IH"(2) [OF pc refl False] ps qs
      show ?thesis by blast
    qed
  qed
next
  case (7 cs depth alpha beta min_eval)
  show ?case by (auto intro: min_done)
next
  case (8 n depth alpha beta min_eval)
  show ?case by simp
next
  case (9 c cs n depth alpha beta min_eval)
  show ?case
  proof (intro allI impI)
    fix b0 M0 a r m r'
    assume w: "alpha < beta" and i1: "beta \<le> b0" and i2: "min b0 min_eval \<le> beta"
      and i3: "min_eval \<le> M0" and i4: "M0 = min_eval \<or> b0 \<le> min_eval"
      and p: "minimax_min_loop (c # cs) (Suc n) depth alpha beta min_eval = Inr (a, r)"
      and q: "minimax_plain_min_loop (c # cs) (Suc n) depth M0 = Inr (m, r')"
    from p obtain e c' where pc: "minimax c (depth - 1) alpha beta True = Inr (e, c')"
      by (auto split: sum.splits)
    from q obtain em c'' s' where qc: "minimax_plain c (depth - 1) True = Inr (em, c'')"
      and qs: "minimax_plain_min_loop cs n depth (min M0 em) = Inr (m, s')"
      by (auto split: sum.splits)
    from "9.IH"(1) w pc qc have b: "bounds alpha beta e em" by blast
    show "bounds alpha b0 a m"
    proof (cases "min beta e \<le> alpha")
      case True
      with p pc have a: "a = min min_eval e" by simp
      from minimax_plain_min_loop_le [OF qs] have "m \<le> min M0 em" .
      from min_cut [OF b w True i1 i3 i4 this] a show ?thesis by simp
    next
      case False
      with p pc obtain s where
        ps: "minimax_min_loop cs n depth alpha (min beta e) (min min_eval e) = Inr (a, s)"
        by (auto split: sum.splits)
      from min_step [OF b w False i1 i2 i3 i4] "9.IH"(2) [OF pc refl False] ps qs
      show ?thesis by blast
    qed
  qed
qed


lemma minimax_bounds:
  "alpha < beta \<Longrightarrow> minimax n d alpha beta mx = Inr (a, n')
     \<Longrightarrow> minimax_plain n d mx = Inr (m, n'') \<Longrightarrow> bounds alpha beta a m"
  using minimax_bounds_aux(1) by blast

lemma length_cells: "length cells = 64"
  by (simp add: cells_def)

lemma length_calculateLegalMoves:
  assumes "calculateLegalMoves board player = Inr ml"
  shows "length ml \<le> 64"
proof -
  have "length ml \<le> length cells"
    by (subst calculateLegalMoves_filter [OF assms]) (rule length_filter_le)
  then show ?thesis by (simp add: length_cells)
qed

lemma fold_count_bounds:
  "t \<le> fold (\<lambda>ij total. if P ij then total + 1 else total) ps (t::int)
   \<and> fold (\<lambda>ij total. if P ij then total + 1 else total) ps t \<le> t + int (length ps)"
proof (induction ps arbitrary: t)
  case Nil
  show ?case by simp
next
  case (Cons p ps)
  from Cons.IH [of t] Cons.IH [of "t + 1"] show ?case by auto
qed

lemma getScore_bounds: "0 \<le> getScore board player \<and> getScore board player \<le> 64"
  using fold_count_bounds [of 0 "\<lambda>ij. board (fst ij) (snd ij) = player" cells]
  by (simp add: getScore_def length_cells)

lemma corners_bounds: "0 \<le> corners board player \<and> corners board player \<le> 40"
  by (simp add: corners_def)

lemma heuristic_bounds:
  assumes "heuristic board = Inr h"
  shows "- 168 \<le> h \<and> h \<le> 168"
proof -
  from assms obtain bm wm where bm: "calculateLegalMoves board Black = Inr bm"
    and wm: "calculateLegalMoves board White = Inr wm"
    and h: "h = (int (length bm) + getScore board Black + corners board Black)
              - (int (length wm) + getScore board White + corners board White)"
    by (auto simp: heuristic_def getBlackLegalMoves_def getWhiteLegalMoves_def split: sum.splits)
  from length_calculateLegalMoves [OF bm] length_calculateLegalMoves [OF wm]
    getScore_bounds [of board Black] getScore_bounds [of board White]
    corners_bounds [of board Black] corners_bounds [of board White] h
  show ?thesis by linarith
qed

lemma minimax_plain_range_aux:
  "\<forall>m n'. minimax_plain n d mx = Inr (m, n') \<longrightarrow> - 9999999 \<le> m \<and> m \<le> 9999999"
  "\<forall>m r. minimax_plain_children cso cnt d mx = Inr (m, r) \<longrightarrow> - 9999999 \<le> m \<and> m \<le> 9999999"
  "\<forall>m r. - 9999999 \<le> M0 \<and> M0 \<le> 9999999 \<longrightarrow> minimax_plain_max_loop cs k d M0 = Inr (m, r)
      \<longrightarrow> - 9999999 \<le> m \<and> m \<le> 9999999"
  "\<forall>m r. - 9999999 \<le> M0 \<and> M0 \<le> 9999999 \<longrightarrow> minimax_plain_min_loop cs k d M0 = Inr (m, r)
      \<longrightarrow> - 9999999 \<le> m \<and> m \<le> 9999999"
proof (induction n d mx and cso cnt d mx and cs k d M0 and cs k d M0
       rule: minimax_plain_minimax_plain_children_minimax_plain_max_loop_minimax_plain_min_loop.induct)
  case (1 cs cnt ml st v depth maximizing_player)
  show ?case
  proof (intro allI impI)
    fix m n'
    assume q: "minimax_plain (Node cs cnt ml st v) depth maximizing_player = Inr (m, n')"
    show "- 9999999 \<le> m \<and> m \<le> 9999999"
    proof (cases "depth = 0")
      case True
      with q have "heuristic st = Inr m" by (auto split: sum.splits)
      from heuristic_bounds [OF this] show ?thesis by simp
    next
      case False
      with q obtain over where over: "isGameOver st = Inr over"
        by (auto split: sum.splits)
      show ?thesis
      proof (cases over)
        case True
        with q False over have "heuristic st = Inr m" by (auto split: sum.splits)
        from heuristic_bounds [OF this] show ?thesis by simp
      next
        case nover: False
        from q False over nover obtain r where
          "minimax_plain_children cs cnt depth maximizing_player = Inr (m, r)"
          by (auto split: sum.splits)
        with "1.IH" [OF False over nover] show ?thesis by blast
      qed
    qed
  qed
next
  case (2 cnt depth maximizing_player)
  show ?case by (auto split: if_splits)
next
  case (3 cs cnt depth maximizing_player)
  show ?case
  proof (intro allI impI)
    fix m r
    assume q: "minimax_plain_children (Some cs) cnt depth maximizing_player = Inr (m, r)"
    show "- 9999999 \<le> m \<and> m \<le> 9999999"
    proof (cases maximizing_player)
      case True
      from q True obtain s where
        "minimax_plain_max_loop cs (nat cnt) depth (- 9999999) = Inr (m, s)"
        by (auto split: sum.splits)
      with "3.IH"(1) [OF True] show ?thesis by simp
    next
      case False
      from q False obtain s where
        "minimax_plain_min_loop cs (nat cnt) depth 9999999 = Inr (m, s)"
        by (auto split: sum.splits)
      with "3.IH"(2) [OF False] show ?thesis by simp
    qed
  qed
next
  case (4 cs depth max_eval)
  show ?case by simp
next
  case (5 n depth max_eval)
  show ?case by simp
next
  case (6 c cs n depth max_eval)
  show ?case
  proof (intro allI impI)
    fix m r
    assume i: "- 9999999 \<le> max_eval \<and> max_eval \<le> 9999999"
      and q: "minimax_plain_max_loop (c # cs) (Suc n) depth max_eval = Inr (m, r)"
    from q obtain em c' s where qc: "minimax_plain c (depth - 1) False = Inr (em, c')"
      and qs: "minimax_plain_max_loop cs n depth (max max_eval em) = Inr (m, s)"
      by (auto split: sum.splits)
    from "6.IH"(1) qc have "- 9999999 \<le> em \<and> em \<le> 9999999" by blast
    with i have "- 9999999 \<le> max max_eval em \<and> max max_eval em \<le> 9999999" by linarith
    with "6.IH"(2) [OF qc refl] qs show "- 9999999 \<le> m \<and> m \<le> 9999999" by blast
  qed
next
  case (7 cs depth min_eval)
  show ?case by simp
next
  case (8 n depth min_eval)
  show ?case by simp
next
  case (9 c cs n depth min_eval)
  show ?case
  proof (intro allI impI)
    fix m r
    assume i: "- 9999999 \<le> min_eval \<and> min_eval \<le> 9999999"
      and q: "minimax_plain_min_loop (c # cs) (Suc n) depth min_eval = Inr (m, r)"
    from q obtain em c' s where qc: "minimax_plain c (depth - 1) True = Inr (em, c')"
      and qs: "minimax_plain_min_loop cs n depth (min min_eval em) = Inr (m, s)"
      by (auto split: sum.splits)
    from "9.IH"(1) qc have "- 9999999 \<le> em \<and> em \<le> 9999999" by blast
    with i have "- 9999999 \<le> min min_eval em \<and> min min_eval em \<le> 9999999" by linarith
    with "9.IH"(2) [OF qc refl] qs show "- 9999999 \<le> m \<and> m \<le> 9999999" by blast
  qed
qed

lemma minimax_plain_range:
  "minimax_plain n d mx = Inr (m, n') \<Longrightarrow> - 9999999 \<le> m \<and> m \<le> 9999999"
  using minimax_plain_range_aux(1) by blast

lemma minimax_defined_aux:
  "\<forall>alpha beta r. minimax_plain n d mx = Inr r \<longrightarrow> (\<exists>r'. minimax n d alpha beta mx = Inr r')"
  "\<forall>alpha beta r. minimax_plain_children cso cnt d mx = Inr r
      \<longrightarrow> (\<exists>r'. minimax_children cso cnt d alpha beta mx = Inr r')"
  "\<forall>alpha beta me r. minimax_plain_max_loop cs k d M0 = Inr r
      \<longrightarrow> (\<exists>r'. minimax_max_loop cs k d alpha beta me = Inr r')"
  "\<forall>alpha beta me r. minimax_plain_min_loop cs k d M0 = Inr r
      \<longrightarrow> (\<exists>r'. minimax_min_loop cs k d alpha beta me = Inr r')"
proof (induction n d mx and cso cnt d mx and cs k d M0 and cs k d M0
       rule: minimax_plain_minimax_plain_children_minimax_plain_max_loop_minimax_plain_min_loop.induct)
  case (1 cs cnt ml st v depth maximizing_player)
  show ?case
  proof (intro allI impI)
    fix alpha beta r
    assume q: "minimax_plain (Node cs cnt ml st v) depth maximizing_player = Inr r"
    show "\<exists>r'. minimax (Node cs cnt ml st v) depth alpha beta maximizing_player = Inr r'"
    proof (cases "depth = 0")
      case True
      with q show ?thesis by (auto split: sum.splits)
    next
      case False
      with q obtain over where over: "isGameOver st = Inr over"
        by (auto split: sum.splits)
      show ?thesis
      proof (cases over)
        case True
        with q False over show ?thesis by (auto split: sum.splits)
      next
        case nover: False
        from q False over nover obtain s where
          "minimax_plain_children cs cnt depth maximizing_player = Inr s"
          by (auto split: sum.splits)
        with "1.IH" [OF False over nover] obtain s' where
          "minimax_children cs cnt depth alpha beta maximizing_player = Inr s'"
          by blast
        with False over nover show ?thesis by (cases s') simp
      qed
    qed
  qed
next
  case (2 cnt depth maximizing_player)
  show ?case by (auto split: if_splits)
next
  case (3 cs cnt depth maximizing_player)
  show ?case
  proof (intro allI impI)
    fix alpha beta r
    assume q: "minimax_plain_children (Some cs) cnt depth maximizing_player = Inr r"
    show "\<exists>r'. minimax_children (Some cs) cnt depth alpha beta maximizing_player = Inr r'"
    proof (cases maximizing_player)
      case True
      from q True obtain s where
        "minimax_plain_max_loop cs (nat cnt) depth (- 9999999) = Inr s"
        by (auto split: sum.splits)
      with "3.IH"(1) [OF True] obtain s' where
        "minimax_max_loop cs (nat cnt) depth alpha beta (- 9999999) = Inr s'"
        by blast
      with True show ?thesis by (cases s') simp
    next
      case False
      from q False obtain s where
        "minimax_plain_min_loop cs (nat cnt) depth 9999999 = Inr s"
        by (auto split: sum.splits)
      with "3.IH"(2) [OF False] obtain s' where
        "minimax_min_loop cs (nat cnt) depth alpha beta 9999999 = Inr s'"
        by blast
      with False show ?thesis by (cases s') simp
    qed
  qed
next
  case (4 cs depth max_eval)
  show ?case by simp
next
  case (5 n depth max_eval)
  show ?case by simp
next
  case (6 c cs n depth max_eval)
  show ?case
  proof (intro allI impI)
    fix alpha beta me r
    assume q: "minimax_plain_max_loop (c # cs) (Suc n) depth max_eval = Inr r"
    from q obtain em c' s where qc: "minimax_plain c (depth - 1) False = Inr (em, c')"
      and qs: "minimax_plain_max_loop cs n depth (max max_eval em) = Inr s"
      by (auto split: sum.splits)
    from "6.IH"(1) qc obtain e c'' where
      pc: "minimax c (depth - 1) alpha beta False = Inr (e, c'')"
      by fastforce
    from "6.IH"(2) [OF qc refl] qs obtain s' where
      "minimax_max_loop cs n depth (max alpha e) beta (max me e) = Inr s'"
      by blast
    with pc show "\<exists>r'. minimax_max_loop (c # cs) (Suc n) depth alpha beta me = Inr r'"
      by (cases s') simp
  qed
next
  case (7 cs depth min_eval)
  show ?case by simp
next
  case (8 n depth min_eval)
  show ?case by simp
next
  case (9 c cs n depth min_eval)
  show ?case
  proof (intro allI impI)
    fix alpha beta me r
    assume q: "minimax_plain_min_loop (c # cs) (Suc n) depth min_eval = Inr r"
    from q obtain em c' s where qc: "minimax_plain c (depth - 1) True = Inr (em, c')"
      and qs: "minimax_plain_min_loop cs n depth (min min_eval em) = Inr s"
      by (auto split: sum.splits)
    from "9.IH"(1) qc obtain e c'' where
      pc: "minimax c (depth - 1) alpha beta True = Inr (e, c'')"
      by fastforce
    from "9.IH"(2) [OF qc refl] qs obtain s' where
      "minimax_min_loop cs n depth alpha (min beta e) (min me e) = Inr s'"
      by blast
    with pc show "\<exists>r'. minimax_min_loop (c # cs) (Suc n) depth alpha beta me = Inr r'"
      by (cases s') simp
  qed
qed

lemma minimax_defined:
  "minimax_plain n d mx = Inr r \<Longrightarrow> \<exists>a n'. minimax n d alpha beta mx = Inr (a, n')"
  using minimax_defined_aux(1) [of n d mx] by fastforce

lemma minimax_val:
  "minimax n d alpha beta mx = Inr (a, n') \<Longrightarrow>
     val n' = (if d = 0 \<or> isGameOver (state n) = Inr True then val n else a)"
  by (cases n) (auto split: sum.splits if_splits)

lemma minimax_plain_val:
  "minimax_plain n d mx = Inr (m, n') \<Longrightarrow>
     val n' = (if d = 0 \<or> isGameOver (state n) = Inr True then val n else m)"
  by (cases n) (auto split: sum.splits if_splits)

text \<open>
  C3, as amended: when the search without pruning returns on the tree of \<^verbatim>\<open>CreateTree\<close>,
  the search with pruning, called with the window from \<open>-99999999\<close> to \<open>99999999\<close>,
  returns the same value and records the same \<open>val\<close> on the root. At every node and
  for every window, when the pruned search returns a value strictly between the
  \<open>alpha\<close> and the \<open>beta\<close> it was called with, that value and the \<open>val\<close> it records
  on the node are those of the search without pruning.
\<close>

theorem minimax_agrees_with_plain:
  assumes "CreateTree board depth player = Inr t"
    and "minimax_plain t depth (player = Black) = Inr (v, t')"
  shows "(\<exists>t''. minimax t depth (- 99999999) 99999999 (player = Black) = Inr (v, t'')
            \<and> val t'' = val t')
     \<and> (\<forall>n d alpha beta mx a n' m n''.
            alpha < a \<and> a < beta \<and> minimax n d alpha beta mx = Inr (a, n')
              \<and> minimax_plain n d mx = Inr (m, n'')
            \<longrightarrow> a = m \<and> val n' = val n'')"
proof (rule conjI)
  from minimax_defined [OF assms(2)] obtain a t'' where
    p: "minimax t depth (- 99999999) 99999999 (player = Black) = Inr (a, t'')"
    by blast
  have "bounds (- 99999999) 99999999 a v"
    by (rule minimax_bounds [OF _ p assms(2)]) simp
  with minimax_plain_range [OF assms(2)] have "a = v"
    unfolding bounds_def by linarith
  with p minimax_val [OF p] minimax_plain_val [OF assms(2)]
  show "\<exists>t''. minimax t depth (- 99999999) 99999999 (player = Black) = Inr (v, t'')
          \<and> val t'' = val t'"
    by auto
next
  show "\<forall>n d alpha beta mx a n' m n''.
            alpha < a \<and> a < beta \<and> minimax n d alpha beta mx = Inr (a, n')
              \<and> minimax_plain n d mx = Inr (m, n'')
            \<longrightarrow> a = m \<and> val n' = val n''"
  proof (intro allI impI)
    fix n d alpha beta mx a n' m n''
    assume h: "alpha < a \<and> a < beta \<and> minimax n d alpha beta mx = Inr (a, n')
                \<and> minimax_plain n d mx = Inr (m, n'')"
    then have p: "minimax n d alpha beta mx = Inr (a, n')"
      and q: "minimax_plain n d mx = Inr (m, n'')" and w: "alpha < beta"
      by simp_all
    from minimax_bounds [OF w p q] h have "a = m"
      unfolding bounds_def by simp
    with minimax_val [OF p] minimax_plain_val [OF q]
    show "a = m \<and> val n' = val n''" by simp
  qed
qed


theorem minimax_agrees_with_plain_witness:
  "\<exists>t t''. CreateTree initial_board 2 Black = Inr t
     \<and> minimax t 2 (- 99999999) 99999999 (Black = Black) = Inr (- 1, t'')"
proof -
  have "case CreateTree initial_board 2 Black of
          Inl e \<Rightarrow> False
        | Inr t \<Rightarrow> (case minimax_plain t 2 True of Inl e \<Rightarrow> False | Inr (v, t') \<Rightarrow> v = - 1)"
    by code_simp
  then obtain t t' where t: "CreateTree initial_board 2 Black = Inr t"
    and q: "minimax_plain t 2 (Black = Black) = Inr (- 1, t')"
    by (auto split: sum.splits)
  from minimax_agrees_with_plain [OF t q] t show ?thesis by blast
qed

text \<open>
  C3 as stated fails: the pruned search can record another \<open>val\<close> than the search
  without pruning on a node all of whose children it has recursed into, when a cut below
  that node makes a child return a bound. In the tree four plies deep of \<open>cut_board\<close>
  the first child of the second child of the root has one child; the pruned search
  is called on the node with \<open>beta = 99999999\<close>, so it makes no cut there, it recurses
  into the child and records \<open>-28\<close> on the child and on the node, and the search without
  pruning records \<open>-30\<close> on both. The root values agree.
\<close>

theorem pruned_val_differs:
  "(case CreateTree cut_board 4 Black of
      Inl e \<Rightarrow> None
    | Inr t \<Rightarrow>
        (case minimax t 4 (- 99999999) 99999999 True of
           Inl e \<Rightarrow> None
         | Inr (v, t') \<Rightarrow>
             (case minimax_plain t 4 True of
                Inl e \<Rightarrow> None
              | Inr (w, t'') \<Rightarrow> Some (v, w, vals_at t' [1, 0], vals_at t'' [1, 0]))))
   = Some (- 8, - 8, Some (- 28, [- 28]), Some (- 30, [- 30]))"
  by code_simp

section \<open>What makeMove flips\<close>

lemma stretch_0: "q \<noteq> other \<Longrightarrow> cellAt board x y = Inr ch \<Longrightarrow> ch \<noteq> other \<Longrightarrow>
  stretch board other d0 d1 x y j q \<longleftrightarrow> j = 0 \<and> ch = q"
  unfolding stretch_def by (cases j) auto

lemma stretch_Suc:
  "stretch board other d0 d1 x y (Suc j) q \<longleftrightarrow>
     cellAt board x y = Inr other \<and> stretch board other d0 d1 (x + d0) (y + d1) j q"
proof -
  have a: "\<And>n. x + d0 + int n * d0 = x + int (Suc n) * d0"
    and b: "\<And>n. y + d1 + int n * d1 = y + int (Suc n) * d1"
    by (simp_all add: algebra_simps)
  show ?thesis
    unfolding stretch_def a b
    by (auto simp: less_Suc_eq_0_disj)
qed

lemma flip_walk_stretch:
  "q \<noteq> other \<Longrightarrow> \<not> (d0 = 0 \<and> d1 = 0) \<Longrightarrow> cellAt board x y = Inr ch \<Longrightarrow>
     \<exists>res. flip_walk board other d0 d1 x y ch = Inr res
        \<and> (res = q \<longleftrightarrow> (\<exists>j. stretch board other d0 d1 x y j q))"
proof (induction board other d0 d1 x y ch rule: flip_walk.induct)
  case (1 board other d0 d1 x y ch)
  note assms = "1.prems"(1,2) and cell = "1.prems"(3)
  show ?case
  proof (cases "ch = other")
    case False
    have "flip_walk board other d0 d1 x y ch = Inr ch"
      using False by (subst flip_walk.simps) simp
    moreover have "(\<exists>j. stretch board other d0 d1 x y j q) \<longleftrightarrow> ch = q"
      using stretch_0 [OF assms(1) cell False] by auto
    ultimately show ?thesis by auto
  next
    case True
    show ?thesis
    proof (cases "cellAt board (x + d0) (y + d1)")
      case (Inl e)
      then have off: "x + d0 > 7 \<or> x + d0 < 0 \<or> y + d1 > 7 \<or> y + d1 < 0"
        by (auto simp: cellAt_def split: if_splits)
      then have "flip_walk board other d0 d1 x y ch = Inr ch"
        by (subst flip_walk.simps) simp
      moreover have "\<not> stretch board other d0 d1 x y j q" for j
      proof (cases j)
        case 0
        with cell True assms(1) show ?thesis by (auto simp: stretch_def)
      next
        case (Suc i)
        show ?thesis
          unfolding Suc stretch_Suc using Inl by (cases i) (auto simp: stretch_def)
      qed
      ultimately show ?thesis using True assms(1) by auto
    next
      case (Inr ch')
      then have on: "\<not> (x + d0 > 7 \<or> x + d0 < 0 \<or> y + d1 > 7 \<or> y + d1 < 0)"
        by (auto simp: cellAt_def split: if_splits)
      have step: "flip_walk board other d0 d1 x y ch
                    = flip_walk board other d0 d1 (x + d0) (y + d1) ch'"
        using True on Inr assms(2) by (subst flip_walk.simps) auto
      from "1.IH" [OF True on Inr assms(2) assms Inr] obtain res where
        res: "flip_walk board other d0 d1 (x + d0) (y + d1) ch' = Inr res"
        and iff: "res = q \<longleftrightarrow> (\<exists>j. stretch board other d0 d1 (x + d0) (y + d1) j q)"
        by blast
      have "(\<exists>j. stretch board other d0 d1 x y j q)
              \<longleftrightarrow> (\<exists>j. stretch board other d0 d1 (x + d0) (y + d1) j q)"
      proof
        assume "\<exists>j. stretch board other d0 d1 x y j q"
        then obtain j where j: "stretch board other d0 d1 x y j q" ..
        have "j \<noteq> 0"
        proof
          assume "j = 0"
          with j have "cellAt board x y = Inr q" by (simp add: stretch_def)
          with cell True assms(1) show False by simp
        qed
        then obtain i where "j = Suc i" by (cases j) auto
        with j show "\<exists>j. stretch board other d0 d1 (x + d0) (y + d1) j q"
          by (auto simp: stretch_Suc)
      next
        assume "\<exists>j. stretch board other d0 d1 (x + d0) (y + d1) j q"
        then obtain j where "stretch board other d0 d1 (x + d0) (y + d1) j q" ..
        with cell True have "stretch board other d0 d1 x y (Suc j) q"
          by (simp add: stretch_Suc)
        then show "\<exists>j. stretch board other d0 d1 x y j q" ..
      qed
      with step res iff show ?thesis by simp
    qed
  qed
qed


lemma flip_collect_stretch:
  "stretch board other d0 d1 x y j q \<Longrightarrow> q \<noteq> other \<Longrightarrow> \<not> (d0 = 0 \<and> d1 = 0) \<Longrightarrow>
     cellAt board x y = Inr ch \<Longrightarrow>
     flip_collect board other d0 d1 x y ch acc
       = Inr (acc @ map (\<lambda>n. (x + int n * d0, y + int n * d1)) [0..<j])"
proof (induction j arbitrary: x y ch acc)
  case 0
  then have "ch = q" by (simp add: stretch_def)
  with "0.prems"(2) show ?case
    by (subst flip_collect.simps) simp
next
  case (Suc j)
  from Suc.prems(1) have here: "cellAt board x y = Inr other"
    and rest: "stretch board other d0 d1 (x + d0) (y + d1) j q"
    by (simp_all add: stretch_Suc)
  from rest obtain ch' where next_cell: "cellAt board (x + d0) (y + d1) = Inr ch'"
    by (cases j) (auto simp: stretch_def)
  have a: "\<And>n. x + d0 + int n * d0 = x + int (Suc n) * d0"
    and b: "\<And>n. y + d1 + int n * d1 = y + int (Suc n) * d1"
    by (simp_all add: algebra_simps)
  have "flip_collect board other d0 d1 x y ch acc
          = flip_collect board other d0 d1 (x + d0) (y + d1) ch' (acc @ [(x, y)])"
    using here Suc.prems(3,4) next_cell by (subst flip_collect.simps) auto
  also have "\<dots> = Inr ((acc @ [(x, y)])
                 @ map (\<lambda>n. (x + d0 + int n * d0, y + d1 + int n * d1)) [0..<j])"
    by (rule Suc.IH [OF rest Suc.prems(2,3) next_cell])
  also have "\<dots> = Inr (acc @ map (\<lambda>n. (x + int n * d0, y + int n * d1)) [0..<Suc j])"
    unfolding a b by (simp only: map_upt_Suc) simp
  finally show ?case .
qed

lemma run_stretch:
  "run board player r c d k \<longleftrightarrow>
     0 < k \<and> stretch board (opponent player) (fst d) (snd d) (r + fst d) (c + snd d) k player"
proof -
  have a: "\<And>n. r + fst d + int n * fst d = r + int (Suc n) * fst d"
    and b: "\<And>n. c + snd d + int n * snd d = c + int (Suc n) * snd d"
    by (simp_all add: algebra_simps)
  have "(\<forall>n. 0 < n \<and> n \<le> k \<longrightarrow>
            cellAt board (r + int n * fst d) (c + int n * snd d) = Inr (opponent player))
        \<longleftrightarrow> (\<forall>n<k. cellAt board (r + int (Suc n) * fst d) (c + int (Suc n) * snd d)
                     = Inr (opponent player))"
  proof
    assume h: "\<forall>n. 0 < n \<and> n \<le> k \<longrightarrow>
            cellAt board (r + int n * fst d) (c + int n * snd d) = Inr (opponent player)"
    show "\<forall>n<k. cellAt board (r + int (Suc n) * fst d) (c + int (Suc n) * snd d)
                     = Inr (opponent player)"
    proof (intro allI impI)
      fix n assume "n < k"
      then have "0 < Suc n \<and> Suc n \<le> k" by simp
      with h show "cellAt board (r + int (Suc n) * fst d) (c + int (Suc n) * snd d)
                     = Inr (opponent player)" by blast
    qed
  next
    assume h: "\<forall>n<k. cellAt board (r + int (Suc n) * fst d) (c + int (Suc n) * snd d)
                     = Inr (opponent player)"
    show "\<forall>n. 0 < n \<and> n \<le> k \<longrightarrow>
            cellAt board (r + int n * fst d) (c + int n * snd d) = Inr (opponent player)"
    proof (intro allI impI)
      fix n assume "0 < n \<and> n \<le> k"
      then obtain i where "n = Suc i" "i < k" by (cases n) auto
      with h show "cellAt board (r + int n * fst d) (c + int n * snd d) = Inr (opponent player)"
        by blast
    qed
  qed
  then show ?thesis
    unfolding run_def stretch_def a b by simp
qed

lemma opponent_neq: "player = Black \<or> player = White \<Longrightarrow> player \<noteq> opponent player"
  by (auto simp: opponent_def)

lemma flip_loop_no_run:
  assumes pl: "player = Black \<or> player = White" and nz: "\<not> (fst d = 0 \<and> snd d = 0)"
    and none: "\<And>k. \<not> run board player r c d k"
  shows "flip_loop board r c player (d # rest) acc = flip_loop board r c player rest acc"
proof (cases "cellAt board (r + fst d) (c + snd d)")
  case (Inl e)
  then have "r + fst d > 7 \<or> r + fst d < 0 \<or> c + snd d > 7 \<or> c + snd d < 0"
    by (auto simp: cellAt_def split: if_splits)
  then show ?thesis by simp
next
  case (Inr ch)
  then have on: "\<not> (r + fst d > 7 \<or> r + fst d < 0 \<or> c + snd d > 7 \<or> c + snd d < 0)"
    by (auto simp: cellAt_def split: if_splits)
  show ?thesis
  proof (cases "ch = opponent player")
    case False
    with on Inr show ?thesis by (simp add: opponent_def)
  next
    case True
    from flip_walk_stretch [OF opponent_neq [OF pl] nz Inr] obtain res where
      res: "flip_walk board (opponent player) (fst d) (snd d) (r + fst d) (c + snd d) ch = Inr res"
      and iff: "res = player \<longleftrightarrow>
         (\<exists>j. stretch board (opponent player) (fst d) (snd d) (r + fst d) (c + snd d) j player)"
      by blast
    have "res \<noteq> player"
    proof
      assume "res = player"
      with iff obtain j where
        j: "stretch board (opponent player) (fst d) (snd d) (r + fst d) (c + snd d) j player"
        by blast
      have "j \<noteq> 0"
      proof
        assume "j = 0"
        with j have "cellAt board (r + fst d) (c + snd d) = Inr player" by (simp add: stretch_def)
        with Inr True opponent_neq [OF pl] show False by simp
      qed
      with j have "run board player r c d j" by (simp add: run_stretch)
      with none show False by blast
    qed
    with on Inr True res show ?thesis by (simp add: opponent_def)
  qed
qed

lemma flip_loop_run:
  assumes pl: "player = Black \<or> player = White" and nz: "\<not> (fst d = 0 \<and> snd d = 0)"
    and run: "run board player r c d k"
  shows "flip_loop board r c player (d # rest) acc
           = flip_loop board r c player rest (acc @ run_cells r c d k)"
proof -
  from run have k: "0 < k"
    and st: "stretch board (opponent player) (fst d) (snd d) (r + fst d) (c + snd d) k player"
    by (simp_all add: run_stretch)
  from st k have cell: "cellAt board (r + fst d) (c + snd d) = Inr (opponent player)"
    unfolding stretch_def by (auto dest: spec [of _ 0])
  then have on: "\<not> (r + fst d > 7 \<or> r + fst d < 0 \<or> c + snd d > 7 \<or> c + snd d < 0)"
    by (auto simp: cellAt_def split: if_splits)
  from flip_walk_stretch [OF opponent_neq [OF pl] nz cell] st
  have walk: "flip_walk board (opponent player) (fst d) (snd d) (r + fst d) (c + snd d)
                (opponent player) = Inr player"
    by blast
  have a: "\<And>n. r + fst d + int n * fst d = r + int (Suc n) * fst d"
    and b: "\<And>n. c + snd d + int n * snd d = c + int (Suc n) * snd d"
    by (simp_all add: algebra_simps)
  have coll: "flip_collect board (opponent player) (fst d) (snd d) (r + fst d) (c + snd d)
                (opponent player) acc = Inr (acc @ run_cells r c d k)"
    using flip_collect_stretch [OF st opponent_neq [OF pl] nz cell, of acc]
    unfolding run_cells_def a b .
  show ?thesis
    using on cell walk coll by (simp add: opponent_def)
qed


lemma flip_loop_unique:
  assumes pl: "player = Black \<or> player = White"
    and run: "run board player r c d k"
  shows "\<forall>d' \<in> set ds. \<not> (fst d' = 0 \<and> snd d' = 0) \<Longrightarrow> distinct ds \<Longrightarrow>
     \<forall>d' \<in> set ds. \<forall>k'. run board player r c d' k' \<longrightarrow> d' = d \<Longrightarrow>
     flip_loop board r c player ds acc
       = Inr (acc @ (if d \<in> set ds then run_cells r c d k else []))"
proof (induction ds arbitrary: acc)
  case Nil
  show ?case by simp
next
  case (Cons d' ds)
  from Cons.prems have nz: "\<not> (fst d' = 0 \<and> snd d' = 0)"
    and nzs: "\<forall>e \<in> set ds. \<not> (fst e = 0 \<and> snd e = 0)"
    and dist: "distinct ds" and notin: "d' \<notin> set ds"
    and uniq: "\<forall>e \<in> set ds. \<forall>k'. run board player r c e k' \<longrightarrow> e = d"
    by simp_all
  note ih = Cons.IH [OF nzs dist uniq]
  show ?case
  proof (cases "d' = d")
    case True
    with notin have "d \<notin> set ds" by simp
    with True ih [of "acc @ run_cells r c d k"] flip_loop_run [OF pl _ run, of ds acc] nz
    show ?thesis by simp
  next
    case False
    with Cons.prems(3) have "\<And>k'. \<not> run board player r c d' k'" by auto
    from flip_loop_no_run [OF pl nz this, of ds acc] ih [of acc] False
    show ?thesis by simp
  qed
qed

lemma cellAt_setCell_ray:
  assumes "setCell board r c v = Inr board'" and "\<not> (d0 = 0 \<and> d1 = 0)" and "0 < n"
  shows "cellAt board' (r + int n * d0) (c + int n * d1)
           = cellAt board (r + int n * d0) (c + int n * d1)"
proof -
  from assms(1) have b': "board' = board(r := (board r)(c := v))"
    by (auto simp: setCell_def split: if_splits)
  from assms(2,3) have "\<not> (r + int n * d0 = r \<and> c + int n * d1 = c)" by simp
  then show ?thesis
    unfolding b' cellAt_def by auto
qed

lemma run_setCell:
  assumes "setCell board r c v = Inr board'" and "\<not> (fst d = 0 \<and> snd d = 0)"
  shows "run board' player r c d k \<longleftrightarrow> run board player r c d k"
  unfolding run_def
  using cellAt_setCell_ray [OF assms, of "Suc k"] cellAt_setCell_ray [OF assms]
  by (auto simp del: of_nat_Suc)

lemma flip_apply_set:
  "\<forall>p \<in> set ds. 0 \<le> fst p \<and> fst p \<le> 7 \<and> 0 \<le> snd p \<and> snd p \<le> 7 \<Longrightarrow>
     flip_apply board player ds
       = Inr (\<lambda>i j. if (i, j) \<in> set ds then player else board i j)"
proof (induction ds arbitrary: board)
  case Nil
  show ?case by simp
next
  case (Cons p ds)
  from Cons.prems have on: "0 \<le> fst p \<and> fst p \<le> 7 \<and> 0 \<le> snd p \<and> snd p \<le> 7"
    and rest: "\<forall>p \<in> set ds. 0 \<le> fst p \<and> fst p \<le> 7 \<and> 0 \<le> snd p \<and> snd p \<le> 7"
    by simp_all
  have "flip_apply board player (p # ds)
          = flip_apply (board(fst p := (board (fst p))(snd p := player))) player ds"
    using on by (simp add: setCell_def)
  also have "\<dots> = Inr (\<lambda>i j. if (i, j) \<in> set ds then player
                     else (board(fst p := (board (fst p))(snd p := player))) i j)"
    by (rule Cons.IH [OF rest])
  also have "(\<lambda>i j. if (i, j) \<in> set ds then player
                     else (board(fst p := (board (fst p))(snd p := player))) i j)
           = (\<lambda>i j. if (i, j) \<in> set (p # ds) then player else board i j)"
    by (rule ext, rule ext) (cases p, auto)
  finally show ?case .
qed

lemma run_cells_on_board:
  assumes "run board player r c d k" and "p \<in> set (run_cells r c d k)"
  shows "0 \<le> fst p \<and> fst p \<le> 7 \<and> 0 \<le> snd p \<and> snd p \<le> 7"
proof -
  from assms(2) obtain n where n: "n < k"
    and p: "p = (r + int (Suc n) * fst d, c + int (Suc n) * snd d)"
    by (auto simp: run_cells_def)
  from n have "0 < Suc n \<and> Suc n \<le> k" by simp
  with assms(1) have "cellAt board (r + int (Suc n) * fst d) (c + int (Suc n) * snd d)
                        = Inr (opponent player)"
    unfolding run_def by blast
  with p show ?thesis by (auto simp: cellAt_def split: if_splits)
qed

lemma set_run_cells:
  "(i, j) \<in> set (run_cells r c d k)
     \<longleftrightarrow> (\<exists>n. 0 < n \<and> n \<le> k \<and> i = r + int n * fst d \<and> j = c + int n * snd d)"
proof
  assume "(i, j) \<in> set (run_cells r c d k)"
  then obtain n where "n < k" "i = r + int (Suc n) * fst d" "j = c + int (Suc n) * snd d"
    by (auto simp: run_cells_def)
  then have "0 < Suc n \<and> Suc n \<le> k \<and> i = r + int (Suc n) * fst d \<and> j = c + int (Suc n) * snd d"
    by simp
  then show "\<exists>n. 0 < n \<and> n \<le> k \<and> i = r + int n * fst d \<and> j = c + int n * snd d" ..
next
  assume "\<exists>n. 0 < n \<and> n \<le> k \<and> i = r + int n * fst d \<and> j = c + int n * snd d"
  then obtain n where n: "0 < n" "n \<le> k" "i = r + int n * fst d" "j = c + int n * snd d"
    by blast
  then obtain m where "n = Suc m" "m < k" by (cases n) auto
  with n show "(i, j) \<in> set (run_cells r c d k)"
    by (auto simp: run_cells_def)
qed

text \<open>
  C4: when the cell \<open>(r, c)\<close> is empty and exactly one of the eight directions holds a
  run, of \<open>k\<close> opposing discs closed by a disc of the mover, \<^verbatim>\<open>makeMove\<close> returns the
  board in which \<open>(r, c)\<close> and the \<open>k\<close> cells of the run hold the mover's disc and every
  other cell is as before.
\<close>

theorem makeMove_single_run:
  assumes on: "0 \<le> r \<and> r \<le> 7 \<and> 0 \<le> c \<and> c \<le> 7"
    and empty: "board r c = Empty"
    and pl: "player = Black \<or> player = White"
    and d: "d \<in> set surroundingPosDeltas"
    and run: "run board player r c d k"
    and uniq: "\<forall>d' \<in> set surroundingPosDeltas. \<forall>k'. run board player r c d' k' \<longrightarrow> d' = d"
  shows "\<exists>board'. makeMove board r c player = Inr board'
     \<and> (\<forall>i j. board' i j =
           (if (i = r \<and> j = c)
               \<or> (\<exists>n. 0 < n \<and> n \<le> k \<and> i = r + int n * fst d \<and> j = c + int n * snd d)
            then player else board i j))"
proof -
  let ?b1 = "board(r := (board r)(c := player))"
  have set1: "setCell board r c player = Inr ?b1"
    using on by (simp add: setCell_def)
  have nzs: "\<forall>d' \<in> set surroundingPosDeltas. \<not> (fst d' = 0 \<and> snd d' = 0)"
    by (simp add: surroundingPosDeltas_def)
  have dist: "distinct surroundingPosDeltas"
    by (simp add: surroundingPosDeltas_def)
  have run1: "run ?b1 player r c d k"
    using run run_setCell [OF set1] nzs d by blast
  have uniq1: "\<forall>d' \<in> set surroundingPosDeltas. \<forall>k'. run ?b1 player r c d' k' \<longrightarrow> d' = d"
    using uniq run_setCell [OF set1] nzs by blast
  have loop: "flip_loop ?b1 r c player surroundingPosDeltas [] = Inr (run_cells r c d k)"
    using flip_loop_unique [OF pl run1 nzs dist uniq1, of "[]"] d by simp
  have "\<forall>p \<in> set (run_cells r c d k). 0 \<le> fst p \<and> fst p \<le> 7 \<and> 0 \<le> snd p \<and> snd p \<le> 7"
    using run_cells_on_board [OF run] by blast
  from flip_apply_set [OF this, of ?b1 player]
  have "makeMove board r c player
          = Inr (\<lambda>i j. if (i, j) \<in> set (run_cells r c d k) then player else ?b1 i j)"
    by (simp add: makeMove_def set1 flip_def loop)
  moreover have "(if (i, j) \<in> set (run_cells r c d k) then player else ?b1 i j)
      = (if (i = r \<and> j = c)
               \<or> (\<exists>n. 0 < n \<and> n \<le> k \<and> i = r + int n * fst d \<and> j = c + int n * snd d)
            then player else board i j)" for i j
    unfolding set_run_cells by auto
  ultimately show ?thesis by simp
qed


lemma run_first:
  "run board player r c d k \<Longrightarrow> cellAt board (r + fst d) (c + snd d) = Inr (opponent player)"
  unfolding run_def by (auto dest: spec [of _ 1])

theorem makeMove_single_run_witness:
  "\<exists>board'. makeMove initial_board 2 3 Black = Inr board'
     \<and> board' 2 3 = Black \<and> board' 3 3 = Black \<and> board' 4 3 = Black
     \<and> board' 3 4 = Black \<and> board' 4 4 = White \<and> board' 5 3 = Empty"
proof -
  have on: "(0::int) \<le> 2 \<and> (2::int) \<le> 7 \<and> (0::int) \<le> 3 \<and> (3::int) \<le> 7" by simp
  have empty: "initial_board 2 3 = Empty" by (simp add: initial_board_def)
  have pl: "Black = Black \<or> Black = White" by simp
  have d: "(1, 0) \<in> set surroundingPosDeltas" by (simp add: surroundingPosDeltas_def)
  have run: "run initial_board Black 2 3 (1, 0) 1"
    by (auto simp: run_def cellAt_def initial_board_def opponent_def le_Suc_eq)
  have uniq: "\<forall>d' \<in> set surroundingPosDeltas. \<forall>k'. run initial_board Black 2 3 d' k' \<longrightarrow> d' = (1, 0)"
    by (auto simp: surroundingPosDeltas_def cellAt_def initial_board_def opponent_def
          dest!: run_first)
  from makeMove_single_run [OF on empty pl d run uniq] obtain board' where
    mv: "makeMove initial_board 2 3 Black = Inr board'"
    and cellsq: "\<And>i j. board' i j =
           (if (i = 2 \<and> j = 3)
               \<or> (\<exists>n. 0 < n \<and> n \<le> 1 \<and> i = 2 + int n * fst (1::int, 0::int)
                      \<and> j = 3 + int n * snd (1::int, 0::int))
            then Black else initial_board i j)"
    by blast
  have "board' 2 3 = Black" by (simp add: cellsq)
  moreover have "board' 3 3 = Black"
    unfolding cellsq [of 3 3] by (auto intro: exI [of _ 1])
  moreover have "board' 4 3 = Black"
    unfolding cellsq [of 4 3] by (auto simp: initial_board_def)
  moreover have "board' 3 4 = Black"
    unfolding cellsq [of 3 4] by (auto simp: initial_board_def)
  moreover have "board' 4 4 = White"
    unfolding cellsq [of 4 4] by (auto simp: initial_board_def)
  moreover have "board' 5 3 = Empty"
    unfolding cellsq [of 5 3] by (auto simp: initial_board_def)
  ultimately show ?thesis using mv by blast
qed

section \<open>The legal moves when no read leaves the grid\<close>

text \<open>
  Whenever \<^verbatim>\<open>calculateLegalMoves\<close> returns, its list holds exactly the empty cells from
  which some direction holds a run.
\<close>

lemma isFlippable_walk_as_flip_walk:
  "isFlippable_walk board other d0 d1 x y ch = Inr res \<Longrightarrow>
     flip_walk board other d0 d1 x y ch = Inr res"
proof (induction board other d0 d1 x y ch rule: isFlippable_walk.induct)
  case (1 board other d0 d1 x y ch)
  show ?case
  proof (cases "ch = other")
    case False
    with "1.prems" show ?thesis
      by (subst flip_walk.simps, subst (asm) isFlippable_walk.simps) simp
  next
    case True
    show ?thesis
    proof (cases "x + d0 > 7 \<or> x + d0 < 0 \<or> y + d1 > 7 \<or> x + d0 < 0")
      case off: True
      with True "1.prems" have "res = ch"
        by (subst (asm) isFlippable_walk.simps) simp
      moreover from off have "x + d0 > 7 \<or> x + d0 < 0 \<or> y + d1 > 7 \<or> y + d1 < 0"
        by auto
      ultimately show ?thesis using True
        by (subst flip_walk.simps) simp
    next
      case on: False
      from True on "1.prems" obtain ch' where
        cell: "cellAt board (x + d0) (y + d1) = Inr ch'" and nz: "\<not> (d0 = 0 \<and> d1 = 0)"
        and rec: "isFlippable_walk board other d0 d1 (x + d0) (y + d1) ch' = Inr res"
        by (subst (asm) isFlippable_walk.simps) (auto split: sum.splits if_splits)
      from cell have on': "\<not> (x + d0 > 7 \<or> x + d0 < 0 \<or> y + d1 > 7 \<or> y + d1 < 0)"
        by (auto simp: cellAt_def split: if_splits)
      from "1.IH" [OF True on cell nz rec]
      have "flip_walk board other d0 d1 (x + d0) (y + d1) ch' = Inr res" .
      with True on' cell nz show ?thesis
        by (subst flip_walk.simps) auto
    qed
  qed
qed

lemma isFlippable_loop_run:
  assumes pl: "player = Black \<or> player = White"
  shows "\<forall>d \<in> set ds. \<not> (fst d = 0 \<and> snd d = 0) \<Longrightarrow>
     isFlippable_loop board r c player ds = Inr f \<Longrightarrow>
     f \<longleftrightarrow> (\<exists>d \<in> set ds. \<exists>k. run board player r c d k)"
proof (induction ds)
  case Nil
  then show ?case by simp
next
  case (Cons d ds)
  from Cons.prems(1) have nz: "\<not> (fst d = 0 \<and> snd d = 0)"
    and nzs: "\<forall>d \<in> set ds. \<not> (fst d = 0 \<and> snd d = 0)"
    by simp_all
  note ih = Cons.IH [OF nzs]
  have skip: "f \<longleftrightarrow> (\<exists>d \<in> set (d # ds). \<exists>k. run board player r c d k)"
    if rest: "isFlippable_loop board r c player ds = Inr f"
      and none: "\<And>k. \<not> run board player r c d k"
    using ih [OF rest] none by auto
  show ?case
  proof (cases "cellAt board (r + fst d) (c + snd d)")
    case (Inl e)
    then have off: "r + fst d > 7 \<or> r + fst d < 0 \<or> c + snd d > 7 \<or> c + snd d < 0"
      by (auto simp: cellAt_def split: if_splits)
    have "\<not> run board player r c d k" for k
      using run_first [of board player r c d k] Inl by auto
    moreover from Cons.prems(2) off have "isFlippable_loop board r c player ds = Inr f"
      by simp
    ultimately show ?thesis using skip by blast
  next
    case (Inr ch)
    then have on: "\<not> (r + fst d > 7 \<or> r + fst d < 0 \<or> c + snd d > 7 \<or> c + snd d < 0)"
      by (auto simp: cellAt_def split: if_splits)
    show ?thesis
    proof (cases "ch = opponent player")
      case False
      have "\<not> run board player r c d k" for k
        using run_first [of board player r c d k] Inr False by auto
      moreover from Cons.prems(2) on Inr False
      have "isFlippable_loop board r c player ds = Inr f"
        by (simp add: opponent_def)
      ultimately show ?thesis using skip by blast
    next
      case True
      from Cons.prems(2) on Inr True obtain res where
        w: "isFlippable_walk board (opponent player) (fst d) (snd d) (r + fst d) (c + snd d) ch
              = Inr res"
        by (auto simp: opponent_def split: sum.splits)
      from flip_walk_stretch [OF opponent_neq [OF pl] nz Inr]
        isFlippable_walk_as_flip_walk [OF w]
      have iff: "res = player \<longleftrightarrow>
         (\<exists>j. stretch board (opponent player) (fst d) (snd d) (r + fst d) (c + snd d) j player)"
        by auto
      have runs: "(\<exists>j. stretch board (opponent player) (fst d) (snd d) (r + fst d) (c + snd d) j player)
                    \<longleftrightarrow> (\<exists>k. run board player r c d k)"
      proof
        assume "\<exists>j. stretch board (opponent player) (fst d) (snd d) (r + fst d) (c + snd d) j player"
        then obtain j where
          j: "stretch board (opponent player) (fst d) (snd d) (r + fst d) (c + snd d) j player"
          ..
        have "j \<noteq> 0"
        proof
          assume "j = 0"
          with j have "cellAt board (r + fst d) (c + snd d) = Inr player"
            by (simp add: stretch_def)
          with Inr True opponent_neq [OF pl] show False by simp
        qed
        with j show "\<exists>k. run board player r c d k" by (auto simp: run_stretch)
      next
        assume "\<exists>k. run board player r c d k"
        then show "\<exists>j. stretch board (opponent player) (fst d) (snd d) (r + fst d) (c + snd d) j player"
          by (auto simp: run_stretch)
      qed
      show ?thesis
      proof (cases "res = player")
        case win: True
        with Cons.prems(2) on Inr True w have "f" by (simp add: opponent_def)
        moreover from win iff runs have "\<exists>k. run board player r c d k" by simp
        ultimately show ?thesis by auto
      next
        case lose: False
        with Cons.prems(2) on Inr True w have "isFlippable_loop board r c player ds = Inr f"
          by (simp add: opponent_def)
        moreover from lose iff runs have "\<And>k. \<not> run board player r c d k" by simp
        ultimately show ?thesis using skip by blast
      qed
    qed
  qed
qed

lemma calculateLegalMoves_loop_defined:
  "calculateLegalMoves_loop board player ps acc = Inr ml \<Longrightarrow> ij \<in> set ps \<Longrightarrow>
     board (fst ij) (snd ij) = Empty \<Longrightarrow> \<exists>f. isFlippable board (fst ij) (snd ij) player = Inr f"
proof (induction ps arbitrary: acc)
  case Nil
  then show ?case by simp
next
  case (Cons p ps)
  show ?case
  proof (cases "board (fst p) (snd p) = Empty")
    case False
    with Cons.prems have "calculateLegalMoves_loop board player ps acc = Inr ml" "ij \<in> set ps"
      by auto
    from Cons.IH [OF this Cons.prems(3)] show ?thesis .
  next
    case True
    with Cons.prems(1) obtain f where f: "isFlippable board (fst p) (snd p) player = Inr f"
      and rest: "calculateLegalMoves_loop board player ps (if f then acc @ [p] else acc) = Inr ml"
      by (auto split: sum.splits if_splits)
    show ?thesis
    proof (cases "ij = p")
      case True
      with f show ?thesis by blast
    next
      case False
      with Cons.prems(2) have "ij \<in> set ps" by simp
      from Cons.IH [OF rest this Cons.prems(3)] show ?thesis .
    qed
  qed
qed

lemma in_set_pairs:
  "(i, j) \<in> set (concat (map (\<lambda>i. map (\<lambda>j. (i, j)) ys) xs)) \<longleftrightarrow> i \<in> set xs \<and> j \<in> set ys"
  by auto

lemma in_set_indices: "i \<in> set [0, 1, 2, 3, 4, 5, 6, 7 :: int] \<longleftrightarrow> 0 \<le> i \<and> i \<le> 7"
  by (simp del: set_simps add: list.set) presburger

lemma in_set_cells: "(i, j) \<in> set cells \<longleftrightarrow> 0 \<le> i \<and> i \<le> 7 \<and> 0 \<le> j \<and> j \<le> 7"
  unfolding cells_def in_set_pairs in_set_indices by simp

lemma calculateLegalMoves_when_defined:
  assumes pl: "player = Black \<or> player = White"
    and ml: "calculateLegalMoves board player = Inr ml"
  shows "(r, c) \<in> set ml \<longleftrightarrow>
     0 \<le> r \<and> r \<le> 7 \<and> 0 \<le> c \<and> c \<le> 7 \<and> board r c = Empty
     \<and> (\<exists>d \<in> set surroundingPosDeltas. \<exists>k. run board player r c d k)"
proof -
  have nzs: "\<forall>d \<in> set surroundingPosDeltas. \<not> (fst d = 0 \<and> snd d = 0)"
    by (simp add: surroundingPosDeltas_def)
  have mem: "(r, c) \<in> set ml \<longleftrightarrow>
     (r, c) \<in> set cells \<and> board r c = Empty \<and> isFlippable board r c player = Inr True"
    by (subst calculateLegalMoves_filter [OF ml]) simp
  show ?thesis
  proof (cases "(r, c) \<in> set cells \<and> board r c = Empty")
    case False
    with mem show ?thesis by (auto simp: in_set_cells)
  next
    case True
    from calculateLegalMoves_loop_defined [OF ml [unfolded calculateLegalMoves_def], of "(r, c)"] True
    obtain f where f: "isFlippable board r c player = Inr f" by auto
    from isFlippable_loop_run [OF pl nzs f [unfolded isFlippable_def]]
    have "f \<longleftrightarrow> (\<exists>d \<in> set surroundingPosDeltas. \<exists>k. run board player r c d k)" .
    with mem True f show ?thesis by (auto simp: in_set_cells)
  qed
qed

section \<open>Nodes the search does not write\<close>

lemma CreateTree_root:
  assumes "CreateTree board depth player = Inr t"
  shows "val t = 0 \<and> (\<forall>cs i. children t = Some cs \<and> i < length cs \<longrightarrow>
           (\<exists>board' depth' player'. CreateTree board' depth' player' = Inr (cs ! i)))"
proof -
  from assms obtain ml where
    t: "t = Node None (int (length ml)) ml board 0
        \<or> (\<exists>cs. CreateTree_loop board depth player ml = Inr cs
               \<and> t = Node (Some cs) (int (length ml)) ml board 0)"
    by (subst (asm) CreateTree.simps) (auto split: sum.splits if_splits)
  then show ?thesis
  proof
    assume "t = Node None (int (length ml)) ml board 0"
    then show ?thesis by simp
  next
    assume "\<exists>cs. CreateTree_loop board depth player ml = Inr cs
               \<and> t = Node (Some cs) (int (length ml)) ml board 0"
    then obtain cs where loop: "CreateTree_loop board depth player ml = Inr cs"
      and n: "t = Node (Some cs) (int (length ml)) ml board 0"
      by blast
    from CreateTree_loop_children [OF loop] n show ?thesis by fastforce
  qed
qed

lemma CreateTree_vals_zero:
  "CreateTree board depth player = Inr t \<Longrightarrow> node_at t path = Some n \<Longrightarrow> val n = 0"
proof (induction path arbitrary: t board depth player)
  case Nil
  with CreateTree_root [OF Nil.prems(1)] show ?case by simp
next
  case (Cons i path)
  from Cons.prems(2) obtain cs where cs: "children t = Some cs" and i: "i < length cs"
    and sub: "node_at (cs ! i) path = Some n"
    by (auto split: option.splits if_splits)
  from CreateTree_root [OF Cons.prems(1)] cs i obtain board' depth' player' where
    "CreateTree board' depth' player' = Inr (cs ! i)"
    by blast
  from Cons.IH [OF this sub] show ?case .
qed

lemma minimax_base_case:
  "minimax n d alpha beta mx = Inr (a, n') \<Longrightarrow> d = 0 \<or> isGameOver (state n) = Inr True \<Longrightarrow> n' = n"
  by (cases n) (auto split: sum.splits if_splits)

lemma minimax_max_loop_children:
  "minimax_max_loop cs k d alpha beta me = Inr (a, r) \<Longrightarrow>
     length r = length cs
     \<and> (\<forall>i<length cs. r ! i = cs ! i
            \<or> (\<exists>alpha' beta' mx e. minimax (cs ! i) (d - 1) alpha' beta' mx = Inr (e, r ! i)))"
proof (induction cs arbitrary: k alpha me a r)
  case Nil
  then show ?case by (cases k) simp_all
next
  case (Cons c cs)
  show ?case
  proof (cases k)
    case 0
    with Cons.prems show ?thesis by simp
  next
    case (Suc n)
    with Cons.prems obtain e c' where
      pc: "minimax c (d - 1) alpha beta False = Inr (e, c')"
      by (auto split: sum.splits)
    have first: "\<exists>alpha' beta' mx e. minimax c (d - 1) alpha' beta' mx = Inr (e, c')"
      using pc by blast
    show ?thesis
    proof (cases "beta \<le> max alpha e")
      case True
      with Cons.prems Suc pc have r: "r = c' # cs" by simp
      show ?thesis
        unfolding r using first by (auto simp: nth_Cons split: nat.splits)
    next
      case False
      with Cons.prems Suc pc obtain s where
        ps: "minimax_max_loop cs n d (max alpha e) beta (max me e) = Inr (a, s)"
        and r: "r = c' # s"
        by (auto split: sum.splits)
      from Cons.IH [OF ps] show ?thesis
        unfolding r using first by (auto simp: nth_Cons split: nat.splits)
    qed
  qed
qed

lemma minimax_min_loop_children:
  "minimax_min_loop cs k d alpha beta me = Inr (a, r) \<Longrightarrow>
     length r = length cs
     \<and> (\<forall>i<length cs. r ! i = cs ! i
            \<or> (\<exists>alpha' beta' mx e. minimax (cs ! i) (d - 1) alpha' beta' mx = Inr (e, r ! i)))"
proof (induction cs arbitrary: k beta me a r)
  case Nil
  then show ?case by (cases k) simp_all
next
  case (Cons c cs)
  show ?case
  proof (cases k)
    case 0
    with Cons.prems show ?thesis by simp
  next
    case (Suc n)
    with Cons.prems obtain e c' where
      pc: "minimax c (d - 1) alpha beta True = Inr (e, c')"
      by (auto split: sum.splits)
    have first: "\<exists>alpha' beta' mx e. minimax c (d - 1) alpha' beta' mx = Inr (e, c')"
      using pc by blast
    show ?thesis
    proof (cases "min beta e \<le> alpha")
      case True
      with Cons.prems Suc pc have r: "r = c' # cs" by simp
      show ?thesis
        unfolding r using first by (auto simp: nth_Cons split: nat.splits)
    next
      case False
      with Cons.prems Suc pc obtain s where
        ps: "minimax_min_loop cs n d alpha (min beta e) (min me e) = Inr (a, s)"
        and r: "r = c' # s"
        by (auto split: sum.splits)
      from Cons.IH [OF ps] show ?thesis
        unfolding r using first by (auto simp: nth_Cons split: nat.splits)
    qed
  qed
qed

lemma minimax_children_of:
  assumes "minimax t d alpha beta mx = Inr (v, t')"
    and "children t = Some cs" and "children t' = Some cs'"
  shows "length cs' = length cs
     \<and> (\<forall>i<length cs. cs' ! i = cs ! i
            \<or> (\<exists>alpha' beta' mx' e. minimax (cs ! i) (d - 1) alpha' beta' mx' = Inr (e, cs' ! i)))"
proof (cases "d = 0 \<or> isGameOver (state t) = Inr True")
  case True
  from minimax_base_case [OF assms(1) True] assms(2,3) show ?thesis by simp
next
  case False
  obtain chs cnt ml st v0 where t: "t = Node chs cnt ml st v0" by (cases t)
  from assms(1) False t obtain chs' where
    ch: "minimax_children chs cnt d alpha beta mx = Inr (v, chs')"
    and t': "t' = Node chs' cnt ml st v"
    by (auto split: sum.splits if_splits)
  from assms(2,3) t t' have chs: "chs = Some cs" and chs': "chs' = Some cs'" by simp_all
  show ?thesis
  proof (cases mx)
    case True
    with ch chs chs' have "minimax_max_loop cs (nat cnt) d alpha beta (- 9999999) = Inr (v, cs')"
      by (auto split: sum.splits)
    from minimax_max_loop_children [OF this] show ?thesis .
  next
    case False
    with ch chs chs' have "minimax_min_loop cs (nat cnt) d alpha beta 9999999 = Inr (v, cs')"
      by (auto split: sum.splits)
    from minimax_min_loop_children [OF this] show ?thesis .
  qed
qed

text \<open>
  C10: in the tree of \<^verbatim>\<open>CreateTree\<close> every node has \<open>val = 0\<close>. A call of
  \<^verbatim>\<open>minimax\<close> on it that is a base case (depth 0, or a board on which the game is
  over) returns the node as it was. After any other call each child is either as it was (the
  loop never reached it) or what a recursive call returned for it; a child that is as it
  was, or that is a base case of its call, has \<open>val = 0\<close>, which is the returned value
  when that value is 0, so the test of the scan in \<^verbatim>\<open>main\<close> holds for it. When a loop
  cuts after a child, the children after it are returned as they were.
\<close>

theorem unwritten_val_is_zero:
  assumes t: "CreateTree board depth player = Inr t"
    and s: "minimax t d alpha beta mx = Inr (v, t')"
  shows "(\<forall>path n. node_at t path = Some n \<longrightarrow> val n = 0)
     \<and> (d = 0 \<or> isGameOver (state t) = Inr True \<longrightarrow> t' = t \<and> val t' = 0)
     \<and> (\<forall>cs cs' i. children t = Some cs \<and> children t' = Some cs' \<and> i < length cs \<longrightarrow>
           (cs' ! i = cs ! i
              \<or> (\<exists>alpha' beta' mx' e. minimax (cs ! i) (d - 1) alpha' beta' mx' = Inr (e, cs' ! i)))
           \<and> (cs' ! i = cs ! i \<or> d - 1 = 0 \<or> isGameOver (state (cs ! i)) = Inr True
                \<longrightarrow> val (cs' ! i) = 0 \<and> (v = 0 \<longrightarrow> val (cs' ! i) = v)))
     \<and> (\<forall>c cs k a b me e c' x r.
           minimax_max_loop (c # cs) (Suc k) d a b me = Inr (x, r)
             \<and> minimax c (d - 1) a b False = Inr (e, c') \<and> b \<le> max a e
           \<longrightarrow> r = c' # cs)
     \<and> (\<forall>c cs k a b me e c' x r.
           minimax_min_loop (c # cs) (Suc k) d a b me = Inr (x, r)
             \<and> minimax c (d - 1) a b True = Inr (e, c') \<and> min b e \<le> a
           \<longrightarrow> r = c' # cs)"
proof (intro conjI)
  show "\<forall>path n. node_at t path = Some n \<longrightarrow> val n = 0"
    using CreateTree_vals_zero [OF t] by blast
next
  show "d = 0 \<or> isGameOver (state t) = Inr True \<longrightarrow> t' = t \<and> val t' = 0"
    using minimax_base_case [OF s] CreateTree_vals_zero [OF t, of "[]" t] by auto
next
  show "\<forall>cs cs' i. children t = Some cs \<and> children t' = Some cs' \<and> i < length cs \<longrightarrow>
           (cs' ! i = cs ! i
              \<or> (\<exists>alpha' beta' mx' e. minimax (cs ! i) (d - 1) alpha' beta' mx' = Inr (e, cs' ! i)))
           \<and> (cs' ! i = cs ! i \<or> d - 1 = 0 \<or> isGameOver (state (cs ! i)) = Inr True
                \<longrightarrow> val (cs' ! i) = 0 \<and> (v = 0 \<longrightarrow> val (cs' ! i) = v))"
  proof (intro allI impI)
    fix cs cs' i
    assume h: "children t = Some cs \<and> children t' = Some cs' \<and> i < length cs"
    then have cs: "children t = Some cs" and cs': "children t' = Some cs'" and i: "i < length cs"
      by simp_all
    from minimax_children_of [OF s cs cs'] i
    have either: "cs' ! i = cs ! i
       \<or> (\<exists>alpha' beta' mx' e. minimax (cs ! i) (d - 1) alpha' beta' mx' = Inr (e, cs' ! i))"
      by blast
    have zero: "val (cs ! i) = 0"
      using CreateTree_vals_zero [OF t, of "[i]" "cs ! i"] cs i by simp
    have "cs' ! i = cs ! i"
      if "cs' ! i = cs ! i \<or> d - 1 = 0 \<or> isGameOver (state (cs ! i)) = Inr True"
      using that either minimax_base_case by blast
    with either zero
    show "(cs' ! i = cs ! i
              \<or> (\<exists>alpha' beta' mx' e. minimax (cs ! i) (d - 1) alpha' beta' mx' = Inr (e, cs' ! i)))
           \<and> (cs' ! i = cs ! i \<or> d - 1 = 0 \<or> isGameOver (state (cs ! i)) = Inr True
                \<longrightarrow> val (cs' ! i) = 0 \<and> (v = 0 \<longrightarrow> val (cs' ! i) = v))"
      by auto
  qed
next
  show "\<forall>c cs k a b me e c' x r.
           minimax_max_loop (c # cs) (Suc k) d a b me = Inr (x, r)
             \<and> minimax c (d - 1) a b False = Inr (e, c') \<and> b \<le> max a e
           \<longrightarrow> r = c' # cs"
    by auto
next
  show "\<forall>c cs k a b me e c' x r.
           minimax_min_loop (c # cs) (Suc k) d a b me = Inr (x, r)
             \<and> minimax c (d - 1) a b True = Inr (e, c') \<and> min b e \<le> a
           \<longrightarrow> r = c' # cs"
    by auto
qed

theorem unwritten_val_is_zero_witness:
  "\<exists>t t' cs'. CreateTree initial_board 1 Black = Inr t
     \<and> minimax t 1 (- 99999999) 99999999 True = Inr (3, t')
     \<and> children t' = Some cs' \<and> 0 < length cs' \<and> val (cs' ! 0) = 0"
proof -
  have "case CreateTree initial_board 1 Black of
          Inl e \<Rightarrow> False
        | Inr t \<Rightarrow>
            (case minimax t 1 (- 99999999) 99999999 True of
               Inl e \<Rightarrow> False
             | Inr (v, t') \<Rightarrow>
                 v = 3 \<and> (case children t of None \<Rightarrow> False | Some cs \<Rightarrow> 0 < length cs)
                 \<and> (case children t' of None \<Rightarrow> False | Some cs' \<Rightarrow> 0 < length cs'))"
    by code_simp
  then obtain t t' cs cs' where t: "CreateTree initial_board 1 Black = Inr t"
    and s: "minimax t 1 (- 99999999) 99999999 True = Inr (3, t')"
    and cs: "children t = Some cs" "0 < length cs"
    and cs': "children t' = Some cs'" "0 < length cs'"
    by (auto split: sum.splits option.splits)
  note u = unwritten_val_is_zero [OF t s, THEN conjunct2, THEN conjunct2, THEN conjunct1]
  from u cs cs'(1) have "val (cs' ! 0) = 0" by simp
  with t s cs' show ?thesis by blast
qed

section \<open>The move the engine makes\<close>

text \<open>
  C6: the engine acts on the first child of the root whose \<open>val\<close> is the optimal value,
  and takes that child's board unless it is the current board in all 64 cells. The code
  does not do this: it compares 49 cells, the rows and columns 0 to 6. On
  \<open>last_column_board\<close>, Black to move, the moves are \<open>(5,6)\<close> and \<open>(5,7)\<close>, the values of
  the two children are 6 and 12 and the optimal value is 12; the second child, the board
  after \<open>(5,7)\<close>, differs from the current board in the cells \<open>(5,7)\<close>, \<open>(4,7)\<close> and
  \<open>(3,7)\<close> of the last column only, the comparison finds the two boards the same, and the
  engine plays the first move of the list, \<open>(5,6)\<close>.
\<close>

theorem engine_takes_first_move:
  "(case CreateTree last_column_board MINIMAX_DEPTH Black of
      Inl e \<Rightarrow> None
    | Inr t \<Rightarrow>
        (case minimax t MINIMAX_DEPTH (- 99999999) 99999999 (Black = Black) of
           Inl e \<Rightarrow> None
         | Inr (v, t') \<Rightarrow>
             Some (v, move_list t', vals_at t' [],
               map_option
                 (\<lambda>c. (map (\<lambda>ij. state c (fst ij) (snd ij)) [(5, 6), (5, 7), (4, 7), (3, 7)],
                       same_config (state c) last_column_board))
                 (node_at t' [1]))))
   = Some (12, [(5, 6), (5, 7)], Some (12, [6, 12]), Some ([Empty, Black, Black, Black], True))
   \<and> map (\<lambda>ij. last_column_board (fst ij) (snd ij)) [(5, 6), (5, 7), (4, 7), (3, 7)]
       = [Empty, Empty, White, White]
   \<and> (case ai_turn last_column_board Black of
        Inl e \<Rightarrow> None
      | Inr b \<Rightarrow> Some (map (\<lambda>ij. b (fst ij) (snd ij)) [(5, 6), (5, 7), (4, 7), (3, 7)]))
       = Some [Black, Empty, White, White]"
  by code_simp

end
